theory Spec2Isabelle
  imports Main
begin

section \<open>JavaScript strings\<close>

text \<open>
  A JavaScript string is a sequence of UTF-16 code units, and \<open>str.length\<close> counts
  code units. A code unit is its number, a natural number below 65536; no function of
  the source computes with code units, so the bound is never needed and every theorem
  holds for all sequences. \<open>js\<close> writes an ASCII literal of the source as such a
  sequence.
\<close>

type_synonym code_unit = nat

type_synonym jsstring = "code_unit list"

definition js :: "string \<Rightarrow> jsstring" where
  "js s = map of_char s"

text \<open>
  The character classes of the regular expressions in \<open>index.js\<close>.
  \<open>\s\<close> is ECMAScript's WhiteSpace and LineTerminator: TAB, LF, VT, FF, CR, SP,
  NBSP, U+1680, U+2000 to U+200A, U+2028, U+2029, U+202F, U+205F, U+3000 and U+FEFF.
  \<open>String.prototype.trim\<close> strips the same set.
\<close>

definition is_space :: "code_unit \<Rightarrow> bool" where
  "is_space c \<longleftrightarrow>
     c = 0x09 \<or> c = 0x0A \<or> c = 0x0B \<or> c = 0x0C \<or> c = 0x0D \<or> c = 0x20 \<or> c = 0xA0 \<or>
     c = 0x1680 \<or> (0x2000 \<le> c \<and> c \<le> 0x200A) \<or> c = 0x2028 \<or> c = 0x2029 \<or>
     c = 0x202F \<or> c = 0x205F \<or> c = 0x3000 \<or> c = 0xFEFF"

definition is_line_break :: "code_unit \<Rightarrow> bool" where
  \<comment> \<open>the class \<open>[\r\n]\<close>\<close>
  "is_line_break c \<longleftrightarrow> c = 0x0D \<or> c = 0x0A"

definition is_digit :: "code_unit \<Rightarrow> bool" where
  \<comment> \<open>the class \<open>\d\<close>, which is \<open>[0-9]\<close>\<close>
  "is_digit c \<longleftrightarrow> 0x30 \<le> c \<and> c \<le> 0x39"

definition is_digit_or_comma :: "code_unit \<Rightarrow> bool" where
  \<comment> \<open>the class \<open>[0-9,]\<close>\<close>
  "is_digit_or_comma c \<longleftrightarrow> is_digit c \<or> c = 0x2C"

definition is_phone_char :: "code_unit \<Rightarrow> bool" where
  \<comment> \<open>the class \<open>[\d\+\-\(\)\s]\<close>\<close>
  "is_phone_char c \<longleftrightarrow>
     is_digit c \<or> c = 0x2B \<or> c = 0x2D \<or> c = 0x28 \<or> c = 0x29 \<or> is_space c"

text \<open>
  \<open>str.replace(/[...]+/g, ' ')\<close>: every maximal run of characters of the class is
  replaced by one space.
\<close>

function replace_runs :: "(code_unit \<Rightarrow> bool) \<Rightarrow> jsstring \<Rightarrow> jsstring" where
  "replace_runs P [] = []"
| "replace_runs P (c # cs) =
     (if P c then 0x20 # replace_runs P (dropWhile P cs) else c # replace_runs P cs)"
  by pat_completeness auto
termination
  by (relation "measure (\<lambda>(P, s). length s)")
     (auto simp: length_dropWhile_le less_Suc_eq_le)

definition trim :: "jsstring \<Rightarrow> jsstring" where
  "trim s = rev (dropWhile is_space (rev (dropWhile is_space s)))"

definition cleanText :: "jsstring \<Rightarrow> jsstring" where
  \<comment> \<open>\<open>str ? str.replace(/[\r\n]+/g, ' ').replace(/\s+/g, ' ').trim() : ''\<close>\<close>
  "cleanText str =
     (if str = [] then []
      else trim (replace_runs is_space (replace_runs is_line_break str)))"

text \<open>
  The normal form in the words of the specification, to compare \<open>cleanText\<close> with:
  the words of a text are its maximal runs of characters that are not whitespace, and
  the normal form is the words separated by single spaces.
\<close>

function ws_words :: "jsstring \<Rightarrow> jsstring list" where
  "ws_words [] = []"
| "ws_words (c # cs) =
     (if is_space c then ws_words cs
      else (c # takeWhile (\<lambda>x. \<not> is_space x) cs)
             # ws_words (dropWhile (\<lambda>x. \<not> is_space x) cs))"
  by pat_completeness auto
termination
  by (relation "measure length") (auto simp: length_dropWhile_le less_Suc_eq_le)

fun join_sp :: "jsstring list \<Rightarrow> jsstring" where
  "join_sp [] = []"
| "join_sp [w] = w"
| "join_sp (w # v # ws) = w @ 0x20 # join_sp (v # ws)"

text \<open>
  The label expressions \<open>/^Address:?\s*/i\<close>, \<open>/^Phone:?\s*/i\<close> and
  \<open>/^Website:?\s*/i\<close> differ in the word only. Under the \<open>i\<close> flag (without
  \<open>u\<close>) a code unit matches an ASCII letter of the pattern exactly when it is that
  letter in upper or lower case: canonicalisation never maps a code unit of 128 or above
  to an ASCII one.
\<close>

definition ascii_upper :: "code_unit \<Rightarrow> code_unit" where
  "ascii_upper c = (if 0x61 \<le> c \<and> c \<le> 0x7A then c - 0x20 else c)"

fun match_word_ci :: "jsstring \<Rightarrow> jsstring \<Rightarrow> jsstring option" where
  \<comment> \<open>the rest of the string after the word, when the string starts with it\<close>
  "match_word_ci [] str = Some str"
| "match_word_ci (p # ps) [] = None"
| "match_word_ci (p # ps) (c # cs) =
     (if ascii_upper c = ascii_upper p then match_word_ci ps cs else None)"

definition replace_label :: "jsstring \<Rightarrow> jsstring \<Rightarrow> jsstring" where
  \<comment> \<open>\<open>str.replace(/^Word:?\s*/i, '')\<close>: the colon and the blanks are greedy\<close>
  "replace_label word str =
     (case match_word_ci word str of
        None \<Rightarrow> str
      | Some rest \<Rightarrow>
          dropWhile is_space
            (case rest of [] \<Rightarrow> [] | c # cs \<Rightarrow> if c = 0x3A then cs else rest))"

definition removeLabel :: "jsstring \<Rightarrow> jsstring \<Rightarrow> jsstring" where
  \<comment> \<open>\<open>str.replace(regex, '').trim()\<close>\<close>
  "removeLabel str word = trim (replace_label word str)"

fun startsWith :: "jsstring \<Rightarrow> jsstring \<Rightarrow> bool" where
  "startsWith str [] = True"
| "startsWith [] (p # ps) = False"
| "startsWith (c # cs) (p # ps) = (c = p \<and> startsWith cs ps)"

fun includes_str :: "jsstring \<Rightarrow> jsstring \<Rightarrow> bool" where
  \<comment> \<open>\<open>str.includes(sub)\<close>\<close>
  "includes_str [] sub = (sub = [])"
| "includes_str (c # cs) sub = (startsWith (c # cs) sub \<or> includes_str cs sub)"

fun phone_match :: "jsstring \<Rightarrow> bool" where
  \<comment> \<open>\<open>str.match(/[\d\+\-\(\)\s]{5,}/)\<close> is not null: the expression is not
      anchored, so a run of five characters of the class anywhere matches\<close>
  "phone_match [] = False"
| "phone_match (c # cs) =
     (5 \<le> length (takeWhile is_phone_char (c # cs)) \<or> phone_match cs)"

definition digits_match :: "jsstring \<Rightarrow> jsstring option" where
  \<comment> \<open>group 1 of \<open>str.match(/([0-9,]+)/)\<close>: the leftmost run, taken greedily\<close>
  "digits_match str =
     (let r = dropWhile (\<lambda>c. \<not> is_digit_or_comma c) str
      in if r = [] then None else Some (takeWhile is_digit_or_comma r))"

definition remove_commas :: "jsstring \<Rightarrow> jsstring" where
  \<comment> \<open>\<open>str.replace(/,/g, '')\<close>\<close>
  "remove_commas str = filter (\<lambda>c. c \<noteq> 0x2C) str"

definition split_space_first :: "jsstring \<Rightarrow> jsstring" where
  \<comment> \<open>\<open>str.split(' ')[0]\<close>: the text before the first U+0020\<close>
  "split_space_first str = takeWhile (\<lambda>c. c \<noteq> 0x20) str"

section \<open>The rendered document\<close>

text \<open>
  The document as the selectors of \<open>index.js\<close> see it: its elements in document
  order, each with its tag, whether it lies inside \<open>div[role="main"]\<close>, the three
  attributes that are read (\<open>None\<close> when the attribute is absent, so that
  \<open>getAttribute\<close> returns \<open>null\<close>), the \<open>href\<close> property (the resolved
  address; empty where the property is undefined or empty) and \<open>innerText\<close>.
\<close>

datatype tag = TagA | TagButton | TagDiv | TagSpan | TagH1 | TagOther

record element =
  tagName :: tag
  in_main :: bool
  aria_label :: "jsstring option"
  data_item_id :: "jsstring option"
  href_attr :: "jsstring option"
  href :: jsstring
  innerText :: jsstring

type_synonym document = "element list"

definition querySelector :: "(element \<Rightarrow> bool) \<Rightarrow> document \<Rightarrow> element option" where
  "querySelector sel doc = find sel doc"

definition querySelectorAll :: "(element \<Rightarrow> bool) \<Rightarrow> document \<Rightarrow> element list" where
  "querySelectorAll sel doc = filter sel doc"

definition attr_includes :: "jsstring option \<Rightarrow> jsstring \<Rightarrow> bool" where
  \<comment> \<open>the attribute selector \<open>[attr*="v"]\<close>\<close>
  "attr_includes a v = (case a of None \<Rightarrow> False | Some s \<Rightarrow> includes_str s v)"

definition attr_starts :: "jsstring option \<Rightarrow> jsstring \<Rightarrow> bool" where
  \<comment> \<open>the attribute selector \<open>[attr^="v"]\<close>\<close>
  "attr_starts a v = (case a of None \<Rightarrow> False | Some s \<Rightarrow> startsWith s v)"

definition or_empty :: "jsstring option \<Rightarrow> jsstring" where
  \<comment> \<open>\<open>x || ''\<close> for \<open>x\<close> a string or \<open>null\<close>\<close>
  "or_empty a = (case a of None \<Rightarrow> [] | Some s \<Rightarrow> s)"

definition sel_h1 :: "element \<Rightarrow> bool" where
  \<comment> \<open>\<open>h1\<close>\<close>
  "sel_h1 e \<longleftrightarrow> tagName e = TagH1"

definition sel_rating :: "element \<Rightarrow> bool" where
  \<comment> \<open>\<open>div[role="main"] span[aria-label*="stars"]\<close>\<close>
  "sel_rating e \<longleftrightarrow>
     in_main e \<and> tagName e = TagSpan \<and> attr_includes (aria_label e) (js ''stars'')"

definition sel_reviews :: "element \<Rightarrow> bool" where
  \<comment> \<open>\<open>div[role="main"] button[aria-label*="reviews"]\<close>\<close>
  "sel_reviews e \<longleftrightarrow>
     in_main e \<and> tagName e = TagButton \<and> attr_includes (aria_label e) (js ''reviews'')"

definition sel_scan :: "element \<Rightarrow> bool" where
  \<comment> \<open>\<open>div[role="main"] button, div[role="main"] a,
      div[role="main"] div[data-item-id]\<close>\<close>
  "sel_scan e \<longleftrightarrow>
     in_main e \<and>
     (tagName e = TagButton \<or> tagName e = TagA \<or>
      (tagName e = TagDiv \<and> data_item_id e \<noteq> None))"

definition sel_http_link :: "element \<Rightarrow> bool" where
  \<comment> \<open>\<open>a[href^="http"]\<close>\<close>
  "sel_http_link e \<longleftrightarrow> tagName e = TagA \<and> attr_starts (href_attr e) (js ''http'')"

definition sel_place_link :: "element \<Rightarrow> bool" where
  \<comment> \<open>\<open>a[href*="/maps/place/"]\<close>\<close>
  "sel_place_link e \<longleftrightarrow>
     tagName e = TagA \<and> attr_includes (href_attr e) (js ''/maps/place/'')"

section \<open>Extraction: \<open>extractDetails\<close>\<close>

text \<open>
  The function evaluated in the page returns \<open>null\<close> or an object of seven
  properties. Six of them are strings on every path of the source. \<open>reviews\<close> is
  kept as a JavaScript value, a string or a number, because the data model of the
  specification types it as an integer. A call of a method on \<open>null\<close> would throw a
  \<open>TypeError\<close>; the result type has a branch for it.
\<close>

datatype jsval = JString jsstring | JNumber int

datatype js_error = TypeError

record details =
  name :: jsstring
  phone :: jsstring
  address :: jsstring
  website :: jsstring
  rating :: jsstring
  reviews :: jsval
  url :: jsstring

definition heading_text :: "document \<Rightarrow> jsstring" where
  \<comment> \<open>\<open>document.querySelector('h1')?.innerText || ''\<close>\<close>
  "heading_text doc =
     (case querySelector sel_h1 doc of None \<Rightarrow> [] | Some h \<Rightarrow> innerText h)"

definition rating_of :: "document \<Rightarrow> js_error + jsstring" where
  \<comment> \<open>\<open>ratingEl ? ratingEl.getAttribute('aria-label').split(' ')[0] : 'N/A'\<close>\<close>
  "rating_of doc =
     (case querySelector sel_rating doc of
        None \<Rightarrow> Inr (js ''N/A'')
      | Some ratingEl \<Rightarrow>
          (case aria_label ratingEl of
             None \<Rightarrow> Inl TypeError
           | Some l \<Rightarrow> Inr (split_space_first l)))"

definition reviews_of :: "document \<Rightarrow> js_error + jsval" where
  \<comment> \<open>\<open>reviewsMatch ? reviewsMatch[1].replace(/,/g, '') : '0'\<close>, with
      \<open>reviewsMatch = reviewsEl ? reviewsEl.getAttribute('aria-label').match(/([0-9,]+)/)
      : null\<close>\<close>
  "reviews_of doc =
     (case querySelector sel_reviews doc of
        None \<Rightarrow> Inr (JString (js ''0''))
      | Some reviewsEl \<Rightarrow>
          (case aria_label reviewsEl of
             None \<Rightarrow> Inl TypeError
           | Some l \<Rightarrow>
               (case digits_match l of
                  None \<Rightarrow> Inr (JString (js ''0''))
                | Some m \<Rightarrow> Inr (JString (remove_commas m)))))"

text \<open>The three local variables that the scan of the elements assigns.\<close>

record scan_state =
  st_address :: jsstring
  st_phone :: jsstring
  st_website :: jsstring

definition content_of :: "element \<Rightarrow> jsstring" where
  \<comment> \<open>\<open>cleanText(aria || text)\<close>\<close>
  "content_of el =
     (let aria = or_empty (aria_label el); text = innerText el
      in cleanText (if aria \<noteq> [] then aria else text))"

definition is_address_candidate :: "element \<Rightarrow> bool" where
  \<comment> \<open>\<open>id === 'address' || content.includes('Address:')\<close>\<close>
  "is_address_candidate el \<longleftrightarrow>
     or_empty (data_item_id el) = js ''address'' \<or>
     includes_str (content_of el) (js ''Address:'')"

definition is_phone_candidate :: "element \<Rightarrow> bool" where
  \<comment> \<open>\<open>id.startsWith('phone') || content.includes('Phone:')\<close>\<close>
  "is_phone_candidate el \<longleftrightarrow>
     startsWith (or_empty (data_item_id el)) (js ''phone'') \<or>
     includes_str (content_of el) (js ''Phone:'')"

definition is_website_candidate :: "element \<Rightarrow> bool" where
  \<comment> \<open>\<open>id === 'authority' || content.includes('Website:')\<close>\<close>
  "is_website_candidate el \<longleftrightarrow>
     or_empty (data_item_id el) = js ''authority'' \<or>
     includes_str (content_of el) (js ''Website:'')"

definition scan_element :: "element \<Rightarrow> scan_state \<Rightarrow> scan_state" where
  \<comment> \<open>the body of \<open>elements.forEach\<close>\<close>
  "scan_element el st =
     (let content = content_of el;
          st1 = (if is_address_candidate el then
                   (let possibleAddr = removeLabel content (js ''Address'')
                    in if length possibleAddr > 5
                       then st\<lparr>st_address := possibleAddr\<rparr> else st)
                 else st);
          st2 = (if is_phone_candidate el then
                   (let possiblePhone = removeLabel content (js ''Phone'')
                    in if phone_match possiblePhone
                       then st1\<lparr>st_phone := possiblePhone\<rparr> else st1)
                 else st1)
      in if is_website_candidate el then
           (if tagName el = TagA \<and> href el \<noteq> []
            then st2\<lparr>st_website := href el\<rparr>
            else st2\<lparr>st_website := removeLabel content (js ''Website'')\<rparr>)
         else st2)"

definition scan_init :: scan_state where
  "scan_init = \<lparr>st_address = js ''N/A'', st_phone = js ''N/A'', st_website = js ''N/A''\<rparr>"

definition scan_elements :: "document \<Rightarrow> scan_state" where
  "scan_elements doc = fold scan_element (querySelectorAll sel_scan doc) scan_init"

definition valid_address :: "element \<Rightarrow> bool" where
  \<comment> \<open>the two conditions under which the scan assigns \<open>address\<close>\<close>
  "valid_address el \<longleftrightarrow>
     is_address_candidate el \<and> 5 < length (removeLabel (content_of el) (js ''Address''))"

definition website_fallback :: "document \<Rightarrow> jsstring \<Rightarrow> jsstring" where
  \<comment> \<open>the block \<open>if (website === 'N/A') { ... }\<close>\<close>
  "website_fallback doc w =
     (if w = js ''N/A'' then
        (case find (\<lambda>a. data_item_id a = Some (js ''authority''))
                (querySelectorAll sel_http_link doc) of
           None \<Rightarrow> w
         | Some webLink \<Rightarrow> cleanText (href webLink))
      else w)"

definition extractDetails :: "document \<Rightarrow> jsstring \<Rightarrow> js_error + details option" where
  "extractDetails doc currentUrl =
     (let nm = cleanText (heading_text doc)
      in if nm = [] then Inr None
         else
           (case rating_of doc of
              Inl e \<Rightarrow> Inl e
            | Inr rt \<Rightarrow>
                (case reviews_of doc of
                   Inl e \<Rightarrow> Inl e
                 | Inr rv \<Rightarrow>
                     (let st = scan_elements doc
                      in Inr (Some \<lparr>name = nm, phone = st_phone st,
                                     address = st_address st,
                                     website = website_fallback doc (st_website st),
                                     rating = rt, reviews = rv,
                                     url = currentUrl\<rparr>)))))"

section \<open>Discovery: \<open>collectUrls\<close>\<close>

text \<open>
  What one iteration of the scroll loop reads from the page: the container's
  \<open>scrollHeight\<close> before the scroll, the document after the wait of 1500 ms (its
  place links are counted) and the \<open>scrollHeight\<close> read by the end detection. The
  behaviour of the page during the loop is the sequence of these observations, one for
  each iteration, so a page that keeps answering for ever is a function on \<open>nat\<close>.
\<close>

record observation =
  sh_before :: nat
  dom :: document
  sh_after :: nat

text \<open>
  The results page: \<open>feed\<close> is \<open>None\<close> when \<open>document.querySelector(selector)\<close>
  finds no container, and \<open>final_dom\<close> is the document at the time of
  \<open>page.$$eval\<close>, after the loop.
\<close>

record results_page =
  feed :: "(nat \<Rightarrow> observation) option"
  final_dom :: document

definition distance :: int where
  "distance = 800"

definition place_link_count :: "document \<Rightarrow> nat" where
  \<comment> \<open>\<open>document.querySelectorAll('a[href*="/maps/place/"]').length\<close>\<close>
  "place_link_count d = length (querySelectorAll sel_place_link d)"

text \<open>
  The \<open>while (true)\<close> loop. \<open>i\<close> counts the iterations completed so far and
  \<open>acts\<close> records the arguments of the \<open>scrollBy\<close> calls in the order they are
  issued; the result is the number of iterations run and that record. The loop has no
  bound of its own, so its value is \<open>None\<close> when it does not stop.
\<close>

partial_function (option) scroll_loop ::
  "(nat \<Rightarrow> observation) \<Rightarrow> int \<Rightarrow> nat \<Rightarrow> nat \<Rightarrow> int list \<Rightarrow> (nat \<times> int list) option"
where
  "scroll_loop env mx retries i acts =
     (let ob = env i;
          sh = sh_before ob;
          acts1 = acts @ [distance];
          count = place_link_count (dom ob)
      in if mx \<le> int count then Some (Suc i, acts1)
         else if sh_after ob = sh then
           (let retries1 = retries + 1;
                acts2 = (if retries1 = 2 then acts1 @ [- 300] else acts1)
            in if retries1 > 8 then Some (Suc i, acts2)
               else scroll_loop env mx retries1 (Suc i) acts2)
         else scroll_loop env mx 0 (Suc i) acts1)"

declare scroll_loop.simps [code]

definition scroll_page :: "results_page \<Rightarrow> int \<Rightarrow> (nat \<times> int list) option" where
  \<comment> \<open>the function evaluated in the page by \<open>collectUrls\<close>\<close>
  "scroll_page pg mx =
     (case feed pg of
        None \<Rightarrow> Some (0, [])
      | Some env \<Rightarrow> scroll_loop env mx 0 0 [])"

text \<open>
  A JavaScript \<open>Set\<close> of strings keeps its members in insertion order, and adding a
  member again changes nothing. \<open>Array.from\<close> lists the members in that order.
\<close>

definition set_add :: "jsstring \<Rightarrow> jsstring list \<Rightarrow> jsstring list" where
  "set_add h urls = (if h \<in> set urls then urls else urls @ [h])"

definition slice0 :: "'a list \<Rightarrow> int \<Rightarrow> 'a list" where
  \<comment> \<open>\<open>arr.slice(0, end)\<close>: a negative \<open>end\<close> counts from the end of the array\<close>
  "slice0 arr e =
     (let len = int (length arr);
          final = (if e < 0 then max (len + e) 0 else min e len)
      in take (nat final) arr)"

definition place_hrefs :: "document \<Rightarrow> jsstring list" where
  \<comment> \<open>\<open>page.$$eval('a[href*="/maps/place/"]', links => links.map(l => l.href))\<close>\<close>
  "place_hrefs d = map href (querySelectorAll sel_place_link d)"

definition collectUrls :: "results_page \<Rightarrow> int \<Rightarrow> jsstring list option" where
  "collectUrls pg maxItems =
     (case scroll_page pg maxItems of
        None \<Rightarrow> None
      | Some _ \<Rightarrow>
          (let hrefs = place_hrefs (final_dom pg);
               urls = fold set_add hrefs []
           in Some (slice0 urls maxItems)))"

text \<open>
  Two notions to state the properties of discovery with: the position at which an
  address is first seen in a list, and a run of the loop that stops after at most
  \<open>b\<close> iterations.
\<close>

definition first_index :: "'a list \<Rightarrow> 'a \<Rightarrow> nat" where
  "first_index xs x = length (takeWhile (\<lambda>y. y \<noteq> x) xs)"

definition stops_by :: "(nat \<times> int list) option \<Rightarrow> nat \<Rightarrow> bool" where
  "stops_by r b \<longleftrightarrow> (\<exists>n acts. r = Some (n, acts) \<and> n \<le> b)"

section \<open>The orchestrator: the visits of \<open>run\<close>\<close>

text \<open>
  \<open>page.goto(url)\<close> either throws (a timeout), which is \<open>None\<close> here, or renders a
  document. Every exception of a visit is caught, logged and the candidate skipped.
\<close>

type_synonym site = "jsstring \<Rightarrow> document option"

definition batchSize :: nat where
  \<comment> \<open>\<open>CONFIG.batchSize\<close>\<close>
  "batchSize = 20"

definition collect_data :: "details option \<Rightarrow> details list \<Rightarrow> details list" where
  \<comment> \<open>\<open>if (data && data.name && data.name !== 'Google Maps') extractedData.push(data)\<close>\<close>
  "collect_data data extractedData =
     (case data of
        None \<Rightarrow> extractedData
      | Some d \<Rightarrow>
          if name d \<noteq> [] \<and> name d \<noteq> js ''Google Maps''
          then extractedData @ [d] else extractedData)"

definition visit :: "site \<Rightarrow> jsstring \<Rightarrow> details list \<Rightarrow> details list" where
  \<comment> \<open>the body of the inner loop, with its \<open>try\<close> and \<open>catch\<close>\<close>
  "visit st u extractedData =
     (case st u of
        None \<Rightarrow> extractedData
      | Some doc \<Rightarrow>
          (case extractDetails doc u of
             Inl err \<Rightarrow> extractedData
           | Inr data \<Rightarrow> collect_data data extractedData))"

function process_batches :: "site \<Rightarrow> jsstring list \<Rightarrow> nat \<Rightarrow> details list \<Rightarrow> details list" where
  "process_batches st businessUrls i extractedData =
     (if i < length businessUrls then
        (let batch = take batchSize (drop i businessUrls)
         in process_batches st businessUrls (i + batchSize)
              (fold (visit st) batch extractedData))
      else extractedData)"
  by pat_completeness auto
termination
  by (relation "measure (\<lambda>(st, us, i, acc). length us - i)")
     (auto simp: batchSize_def)

definition run_visits :: "site \<Rightarrow> jsstring list \<Rightarrow> details list" where
  \<comment> \<open>phase 2 of \<open>run\<close>, from \<open>extractedData = []\<close>\<close>
  "run_visits st businessUrls = process_batches st businessUrls 0 []"

section \<open>Example pages\<close>

text \<open>Elements and pages at which the theorems below are instantiated.\<close>

definition blank_element :: "tag \<Rightarrow> element" where
  "blank_element t =
     \<lparr>tagName = t, in_main = True, aria_label = None, data_item_id = None,
      href_attr = None, href = [], innerText = []\<rparr>"

definition heading_element :: "jsstring \<Rightarrow> element" where
  "heading_element txt = (blank_element TagH1)\<lparr>innerText := txt\<rparr>"

definition rating_element :: "jsstring \<Rightarrow> element" where
  "rating_element lbl = (blank_element TagSpan)\<lparr>aria_label := Some lbl\<rparr>"

definition reviews_element :: "jsstring \<Rightarrow> element" where
  "reviews_element lbl = (blank_element TagButton)\<lparr>aria_label := Some lbl\<rparr>"

definition item_element :: "jsstring \<Rightarrow> jsstring \<Rightarrow> element" where
  "item_element ident txt =
     (blank_element TagButton)\<lparr>data_item_id := Some ident, innerText := txt\<rparr>"

definition rated_page :: document where
  "rated_page =
     [heading_element (js ''Acme Plumbing''), rating_element (js ''4.5 stars''),
      reviews_element (js ''1,234 reviews'')]"

definition address_page :: "jsstring \<Rightarrow> document" where
  "address_page txt =
     [heading_element (js ''Acme Plumbing''), item_element (js ''address'') txt]"

definition phone_page :: "jsstring \<Rightarrow> document" where
  "phone_page txt =
     [heading_element (js ''Acme Plumbing''), item_element (js ''phone:tel:0'') txt]"

definition cafe_page :: document where
  "cafe_page = [heading_element (js ''  Joe's\<newline> Cafe  '')]"

definition place_anchor :: "string \<Rightarrow> element" where
  "place_anchor p =
     (blank_element TagA)\<lparr>href_attr := Some (js ''/maps/place/'' @ js p),
                             href := js ''https://g.co/maps/place/'' @ js p\<rparr>"

definition results_dom :: document where
  "results_dom =
     [place_anchor ''A'', place_anchor ''B'', place_anchor ''A'', place_anchor ''C'',
      (blank_element TagA)\<lparr>href_attr := Some (js ''/help''), href := js ''https://g.co/help''\<rparr>]"

definition static_feed :: "nat \<Rightarrow> observation" where
  "static_feed i = \<lparr>sh_before = 1000, dom = results_dom, sh_after = 1000\<rparr>"

definition static_page :: results_page where
  "static_page = \<lparr>feed = Some static_feed, final_dom = results_dom\<rparr>"

definition no_feed_page :: results_page where
  "no_feed_page = \<lparr>feed = None, final_dom = results_dom\<rparr>"

definition growing_feed :: "nat \<Rightarrow> observation" where
  "growing_feed i = \<lparr>sh_before = i, dom = [], sh_after = Suc i\<rparr>"

definition growing_page :: results_page where
  "growing_page = \<lparr>feed = Some growing_feed, final_dom = []\<rparr>"

definition named_record :: "jsstring \<Rightarrow> details" where
  "named_record n =
     \<lparr>name = n, phone = js ''N/A'', address = js ''N/A'', website = js ''N/A'',
      rating = js ''N/A'', reviews = JString (js ''0''), url = js ''u''\<rparr>"

definition titled_site :: site where
  "titled_site u =
     (if u = js ''a'' then Some [heading_element (js ''Acme Plumbing'')]
      else if u = js ''b'' then Some [heading_element (js ''Google Maps'')]
      else if u = js ''c'' then Some [heading_element (js ''google maps'')]
      else if u = js ''d'' then Some [heading_element (js ''   '')]
      else None)"

definition shrinking_feed :: "nat \<Rightarrow> observation" where
  "shrinking_feed i = \<lparr>sh_before = 2 - i, dom = results_dom, sh_after = 2 - Suc i\<rparr>"

definition shrinking_page :: results_page where
  "shrinking_page = \<lparr>feed = Some shrinking_feed, final_dom = results_dom\<rparr>"

section \<open>Evaluation of the definitions\<close>

lemmas text_eval =
  js_def is_space_def is_line_break_def is_digit_def is_digit_or_comma_def
  is_phone_char_def trim_def cleanText_def ascii_upper_def replace_label_def
  removeLabel_def digits_match_def remove_commas_def split_space_first_def

lemmas dom_eval =
  querySelector_def querySelectorAll_def attr_includes_def attr_starts_def or_empty_def
  sel_h1_def sel_rating_def sel_reviews_def sel_scan_def sel_http_link_def
  sel_place_link_def blank_element_def heading_element_def

section \<open>Whitespace normalisation\<close>

lemma is_space_sp [simp]: "is_space 0x20"
  by (simp add: is_space_def)

lemma line_break_is_space: "is_line_break c \<Longrightarrow> is_space c"
  by (auto simp: is_line_break_def is_space_def)

lemma all_space_dropWhile:
  assumes "\<forall>c. P c \<longrightarrow> is_space c"
  shows "(\<forall>c\<in>set (dropWhile P cs). is_space c) \<longleftrightarrow> (\<forall>c\<in>set cs. is_space c)"
proof -
  have "set cs = set (takeWhile P cs) \<union> set (dropWhile P cs)"
    by (metis set_append takeWhile_dropWhile_id)
  moreover have "\<forall>c\<in>set (takeWhile P cs). is_space c"
    using assms by (auto dest: set_takeWhileD)
  ultimately show ?thesis by auto
qed

lemma trim_eq_Nil_iff: "trim s = [] \<longleftrightarrow> (\<forall>c\<in>set s. is_space c)"
proof -
  have "trim s = [] \<longleftrightarrow> (\<forall>c\<in>set (dropWhile is_space s). is_space c)"
    by (simp add: trim_def dropWhile_eq_Nil_conv)
  then show ?thesis by (simp add: all_space_dropWhile)
qed

lemma all_space_replace_runs:
  "(\<forall>c. P c \<longrightarrow> is_space c) \<Longrightarrow>
   (\<forall>c\<in>set (replace_runs P s). is_space c) \<longleftrightarrow> (\<forall>c\<in>set s. is_space c)"
proof (induction P s rule: replace_runs.induct)
  case (1 P)
  show ?case by simp
next
  case (2 P c cs)
  show ?case
  proof (cases "P c")
    case True
    with 2 have "is_space c" by blast
    with True 2 show ?thesis by (simp add: all_space_dropWhile)
  next
    case False
    with 2 show ?thesis by simp
  qed
qed

lemma cleanText_eq_Nil_iff: "cleanText s = [] \<longleftrightarrow> (\<forall>c\<in>set s. is_space c)"
proof (cases "s = []")
  case True
  then show ?thesis by (simp add: cleanText_def)
next
  case False
  have "(\<forall>c\<in>set (replace_runs is_space (replace_runs is_line_break s)). is_space c)
        \<longleftrightarrow> (\<forall>c\<in>set s. is_space c)"
    by (simp add: all_space_replace_runs line_break_is_space)
  with False show ?thesis by (simp add: cleanText_def trim_eq_Nil_iff)
qed

lemma replace_runs_split:
  "(\<And>x. Q x \<Longrightarrow> \<not> P x) \<Longrightarrow>
   replace_runs P s = takeWhile Q s @ replace_runs P (dropWhile Q s)"
  by (induction s) auto

lemma ws_words_dropWhile [simp]: "ws_words (dropWhile is_space s) = ws_words s"
  by (induction s) auto

lemma ws_words_all_space: "\<forall>x\<in>set s. is_space x \<Longrightarrow> ws_words s = []"
  by (induction s) auto

lemma trim_Cons_space: "is_space c \<Longrightarrow> trim (c # s) = trim s"
  by (simp add: trim_def)

lemma rtrim_Cons:
  "rev (dropWhile is_space (rev (c # s))) =
     (if \<forall>x\<in>set (c # s). is_space x then [] else c # rev (dropWhile is_space (rev s)))"
  by (auto simp: dropWhile_append dropWhile_eq_Nil_conv)

lemma trim_Cons_nonspace:
  "\<not> is_space c \<Longrightarrow> trim (c # s) = c # rev (dropWhile is_space (rev s))"
  unfolding trim_def by (simp add: rtrim_Cons del: rev.simps)

lemma rtrim_append_nonspace:
  "\<forall>x\<in>set u. \<not> is_space x \<Longrightarrow>
   rev (dropWhile is_space (rev (u @ s))) = u @ rev (dropWhile is_space (rev s))"
proof (induction u)
  case Nil
  show ?case by simp
next
  case (Cons a u)
  have "rev (dropWhile is_space (rev (a # (u @ s)))) =
          a # rev (dropWhile is_space (rev (u @ s)))"
    using Cons.prems by (subst rtrim_Cons) auto
  with Cons show ?case by simp
qed

lemma trim_replace_runs_dropWhile:
  "trim (replace_runs is_space (dropWhile is_space s)) = trim (replace_runs is_space s)"
  by (cases s) (auto simp: trim_Cons_space)

lemma ws_words_replace_runs_dropWhile:
  "(\<And>x. P x \<Longrightarrow> is_space x) \<Longrightarrow>
   ws_words (replace_runs P (dropWhile P s)) = ws_words (replace_runs P s)"
  by (cases s) auto

lemma dropWhile_nonspace_head:
  "dropWhile (\<lambda>x. \<not> is_space x) s = d # ds \<Longrightarrow> is_space d"
  using hd_dropWhile [of "\<lambda>x. \<not> is_space x" s] by auto

lemma dropWhile_space_head:
  "dropWhile is_space s = d # ds \<Longrightarrow> \<not> is_space d"
  using hd_dropWhile [of is_space s] by auto

lemma ws_words_word_then:
  assumes "\<not> is_space c" "\<forall>x\<in>set v. \<not> is_space x" "y = [] \<or> is_space (hd y)"
  shows "ws_words (c # v @ y) = (c # v) # ws_words y"
proof -
  have "takeWhile (\<lambda>x. \<not> is_space x) (v @ y) = v"
    using assms(2,3) by (cases y) (auto simp: takeWhile_append2)
  moreover have "dropWhile (\<lambda>x. \<not> is_space x) (v @ y) = y"
    using assms(2,3) by (cases y) (auto simp: dropWhile_append2)
  ultimately show ?thesis using assms(1) by simp
qed

lemma replace_runs_head_space:
  assumes "\<And>x. P x \<Longrightarrow> is_space x" "s = [] \<or> is_space (hd s)"
  shows "replace_runs P s = [] \<or> is_space (hd (replace_runs P s))"
  using assms by (cases s) auto

lemma ws_words_replace_runs:
  assumes sub: "\<And>x. P x \<Longrightarrow> is_space x"
  shows "ws_words (replace_runs P s) = ws_words s"
proof (induction s rule: ws_words.induct)
  case 1
  show ?case by simp
next
  case (2 c cs)
  show ?case
  proof (cases "is_space c")
    case True
    with 2 have IH: "ws_words (replace_runs P cs) = ws_words cs" by simp
    show ?thesis
    proof (cases "P c")
      case True
      then have "ws_words (replace_runs P (c # cs)) = ws_words (replace_runs P (dropWhile P cs))"
        by simp
      also have "\<dots> = ws_words (replace_runs P cs)"
        using sub by (rule ws_words_replace_runs_dropWhile)
      finally show ?thesis using IH \<open>is_space c\<close> by simp
    next
      case False
      with IH \<open>is_space c\<close> show ?thesis by simp
    qed
  next
    case False
    let ?N = "\<lambda>x. \<not> is_space x"
    let ?v = "takeWhile ?N cs" and ?t = "dropWhile ?N cs"
    from 2 False have IH: "ws_words (replace_runs P ?t) = ws_words ?t" by simp
    from False sub have np: "\<not> P c" by blast
    have "replace_runs P cs = ?v @ replace_runs P ?t"
      using sub by (intro replace_runs_split) blast
    with np have eq: "replace_runs P (c # cs) = c # ?v @ replace_runs P ?t" by simp
    have hd_t: "?t = [] \<or> is_space (hd ?t)"
      using hd_dropWhile [of ?N cs] by auto
    have "replace_runs P ?t = [] \<or> is_space (hd (replace_runs P ?t))"
      using sub hd_t by (rule replace_runs_head_space)
    moreover have "\<forall>x\<in>set ?v. \<not> is_space x"
      by (auto dest: set_takeWhileD)
    ultimately have "ws_words (c # ?v @ replace_runs P ?t) = (c # ?v) # ws_words (replace_runs P ?t)"
      using False by (intro ws_words_word_then) auto
    with eq IH False show ?thesis by simp
  qed
qed

lemma join_sp_Cons: "ws \<noteq> [] \<Longrightarrow> join_sp (w # ws) = w @ 0x20 # join_sp ws"
  by (cases ws) auto

lemma trim_replace_runs_words:
  "trim (replace_runs is_space s) = join_sp (ws_words s)"
proof (induction s rule: ws_words.induct)
  case 1
  show ?case by (simp add: trim_def)
next
  case (2 c cs)
  let ?R = "replace_runs is_space"
  show ?case
  proof (cases "is_space c")
    case True
    with 2 have IH: "trim (?R cs) = join_sp (ws_words cs)" by simp
    from True have "trim (?R (c # cs)) = trim (?R (dropWhile is_space cs))"
      by (simp add: trim_Cons_space)
    also have "\<dots> = trim (?R cs)" by (rule trim_replace_runs_dropWhile)
    finally show ?thesis using IH True by simp
  next
    case False
    let ?N = "\<lambda>x. \<not> is_space x"
    let ?v = "takeWhile ?N cs" and ?t = "dropWhile ?N cs"
    let ?rtrim = "\<lambda>x. rev (dropWhile is_space (rev x))"
    from 2 False have IH: "trim (?R ?t) = join_sp (ws_words ?t)" by simp
    have words: "ws_words (c # cs) = (c # ?v) # ws_words ?t"
      using False by simp
    have "?R cs = ?v @ ?R ?t"
      by (intro replace_runs_split) blast
    with False have eq: "?R (c # cs) = c # ?v @ ?R ?t" by simp
    have nv: "\<forall>x\<in>set ?v. \<not> is_space x"
      by (auto dest: set_takeWhileD)
    have "trim (?R (c # cs)) = trim (c # (?v @ ?R ?t))"
      by (simp only: eq)
    also have "\<dots> = c # ?rtrim (?v @ ?R ?t)"
      using False by (rule trim_Cons_nonspace)
    also have "?rtrim (?v @ ?R ?t) = ?v @ ?rtrim (?R ?t)"
      using nv by (rule rtrim_append_nonspace)
    finally have tr: "trim (?R (c # cs)) = (c # ?v) @ ?rtrim (?R ?t)"
      by simp
    show ?thesis
    proof (cases ?t)
      case Nil
      have "trim (?R (c # cs)) = c # ?v"
        unfolding tr Nil by simp
      moreover have "join_sp (ws_words (c # cs)) = c # ?v"
        unfolding words Nil by simp
      ultimately show ?thesis by simp
    next
      case (Cons d ds)
      then have d: "is_space d" by (rule dropWhile_nonspace_head)
      let ?u = "dropWhile is_space ds"
      have Rt: "?R ?t = 0x20 # ?R ?u"
        unfolding Cons using d by simp
      have wt: "ws_words ?t = ws_words ?u"
        unfolding Cons using d by simp
      have "trim (?R ?t) = trim (?R ?u)"
        unfolding Rt by (simp add: trim_Cons_space)
      with IH wt have IH': "trim (?R ?u) = join_sp (ws_words ?u)"
        by (simp only:)
      show ?thesis
      proof (cases ?u)
        case Nil
        have rt: "?rtrim (?R ?t) = []"
          unfolding Rt Nil by simp
        have "trim (?R (c # cs)) = c # ?v"
          unfolding tr rt by (simp only: append_Nil2)
        moreover have "join_sp (ws_words (c # cs)) = c # ?v"
          unfolding words wt Nil by simp
        ultimately show ?thesis by (simp only:)
      next
        case (Cons e es)
        then have e: "\<not> is_space e" by (rule dropWhile_space_head)
        have Ru: "?R ?u = e # ?R es"
          unfolding Cons using e by simp
        have "trim (?R ?u) = e # ?rtrim (?R es)"
          unfolding Ru using e by (rule trim_Cons_nonspace)
        moreover have "?rtrim (?R ?u) = e # ?rtrim (?R es)"
          unfolding Ru using e by (subst rtrim_Cons) simp
        ultimately have r1: "?rtrim (?R ?u) = join_sp (ws_words ?u)"
          using IH' by (simp only:)
        have "?rtrim (0x20 # ?R ?u) = 0x20 # ?rtrim (?R ?u)"
          unfolding Ru using e by (subst rtrim_Cons) simp
        then have r2: "?rtrim (?R ?t) = 0x20 # join_sp (ws_words ?u)"
          unfolding Rt r1 .
        have ne: "ws_words ?u \<noteq> []"
          unfolding Cons using e by simp
        have "join_sp (ws_words (c # cs)) = (c # ?v) @ 0x20 # join_sp (ws_words ?u)"
          unfolding words wt using ne by (rule join_sp_Cons)
        then show ?thesis
          unfolding tr r2 by (simp only:)
      qed
    qed
  qed
qed

lemma cleanText_words: "cleanText s = join_sp (ws_words s)"
proof (cases "s = []")
  case True
  then show ?thesis by (simp add: cleanText_def)
next
  case False
  then have "cleanText s = join_sp (ws_words (replace_runs is_line_break s))"
    by (simp add: cleanText_def trim_replace_runs_words)
  also have "\<dots> = join_sp (ws_words s)"
    by (simp add: ws_words_replace_runs line_break_is_space)
  finally show ?thesis .
qed

lemma ws_words_nonblank:
  "\<forall>w\<in>set (ws_words s). w \<noteq> [] \<and> (\<forall>c\<in>set w. \<not> is_space c)"
proof (induction s rule: ws_words.induct)
  case 1
  show ?case by simp
next
  case (2 c cs)
  let ?N = "\<lambda>x. \<not> is_space x"
  let ?ok = "\<lambda>w. w \<noteq> [] \<and> (\<forall>c\<in>set w. \<not> is_space c)"
  show ?case
  proof (cases "is_space c")
    case True
    with 2 have IH: "\<forall>w\<in>set (ws_words cs). ?ok w" by blast
    have "ws_words (c # cs) = ws_words cs"
      using True by simp
    with IH show ?thesis by (simp only:)
  next
    case False
    with 2 have IH: "\<forall>w\<in>set (ws_words (dropWhile ?N cs)). ?ok w" by blast
    have first: "?ok (c # takeWhile ?N cs)"
    proof (intro conjI ballI)
      show "c # takeWhile ?N cs \<noteq> []" by simp
    next
      fix x assume "x \<in> set (c # takeWhile ?N cs)"
      then consider "x = c" | "x \<in> set (takeWhile ?N cs)" by auto
      then show "\<not> is_space x"
        using False by cases (blast dest: set_takeWhileD)+
    qed
    have "ws_words (c # cs) = (c # takeWhile ?N cs) # ws_words (dropWhile ?N cs)"
      using False by simp
    then have members: "set (ws_words (c # cs)) =
        insert (c # takeWhile ?N cs) (set (ws_words (dropWhile ?N cs)))"
      by (simp only: list.set)
    show ?thesis
    proof
      fix w assume "w \<in> set (ws_words (c # cs))"
      then have "w = c # takeWhile ?N cs \<or> w \<in> set (ws_words (dropWhile ?N cs))"
        unfolding members by (simp only: insert_iff)
      then show "?ok w"
      proof
        assume w: "w = c # takeWhile ?N cs"
        show ?thesis unfolding w by (rule first)
      next
        assume "w \<in> set (ws_words (dropWhile ?N cs))"
        with IH show ?thesis by (rule bspec)
      qed
    qed
  qed
qed

lemma filter_takeWhile_same: "filter P (takeWhile P xs) = takeWhile P xs"
  by (induction xs) auto

lemma concat_ws_words: "concat (ws_words s) = filter (\<lambda>c. \<not> is_space c) s"
proof (induction s rule: ws_words.induct)
  case 1
  show ?case by simp
next
  case (2 c cs)
  let ?N = "\<lambda>x. \<not> is_space x"
  show ?case
  proof (cases "is_space c")
    case True
    with 2 have IH: "concat (ws_words cs) = filter ?N cs" by blast
    from True have "concat (ws_words (c # cs)) = concat (ws_words cs)"
      and "filter ?N (c # cs) = filter ?N cs" by simp_all
    with IH show ?thesis by (simp only:)
  next
    case False
    with 2 have IH: "concat (ws_words (dropWhile ?N cs)) = filter ?N (dropWhile ?N cs)"
      by blast
    have "filter ?N cs = filter ?N (takeWhile ?N cs @ dropWhile ?N cs)"
      by simp
    also have "\<dots> = takeWhile ?N cs @ filter ?N (dropWhile ?N cs)"
      unfolding filter_append filter_takeWhile_same ..
    finally have f: "filter ?N (c # cs) = c # takeWhile ?N cs @ filter ?N (dropWhile ?N cs)"
      using False by simp
    have "concat (ws_words (c # cs)) =
        c # takeWhile ?N cs @ concat (ws_words (dropWhile ?N cs))"
      using False by simp
    with IH f show ?thesis by (simp only:)
  qed
qed

lemma join_sp_spaces:
  assumes "\<forall>w\<in>set ws. \<forall>x\<in>set w. \<not> is_space x"
  shows "c \<in> set (join_sp ws) \<Longrightarrow> is_space c \<Longrightarrow> c = 0x20"
  using assms
proof (induction ws rule: join_sp.induct)
  case 1
  then show ?case by simp
next
  case (2 w)
  then show ?case by auto
next
  case (3 w v ws)
  from "3.prems"(1) have "c \<in> set w \<or> c = 0x20 \<or> c \<in> set (join_sp (v # ws))"
    by auto
  then show ?case
  proof (elim disjE)
    assume "c \<in> set w"
    with "3.prems"(2,3) show ?thesis by auto
  next
    assume "c = 0x20"
    then show ?thesis .
  next
    assume "c \<in> set (join_sp (v # ws))"
    moreover from "3.prems"(3) have "\<forall>w\<in>set (v # ws). \<forall>x\<in>set w. \<not> is_space x"
      by simp
    ultimately show ?thesis using "3.IH" "3.prems"(2) by blast
  qed
qed

lemma cleanText_spaces: "c \<in> set (cleanText s) \<Longrightarrow> is_space c \<Longrightarrow> c = 0x20"
proof -
  have "\<forall>w\<in>set (ws_words s). \<forall>x\<in>set w. \<not> is_space x"
    using ws_words_nonblank [of s] by blast
  then show "c \<in> set (cleanText s) \<Longrightarrow> is_space c \<Longrightarrow> c = 0x20"
    unfolding cleanText_words by (rule join_sp_spaces)
qed

lemma set_match_word_ci: "match_word_ci w s = Some rest \<Longrightarrow> set rest \<subseteq> set s"
  by (induction w s rule: match_word_ci.induct) (auto split: if_splits)

lemma set_trim: "set (trim s) \<subseteq> set s"
  by (auto simp: trim_def dest!: set_dropWhileD)

lemma set_replace_label: "set (replace_label w s) \<subseteq> set s"
proof (cases "match_word_ci w s")
  case None
  then show ?thesis by (simp add: replace_label_def)
next
  case (Some rest)
  then have "set rest \<subseteq> set s" by (rule set_match_word_ci)
  moreover have "set (dropWhile is_space
      (case rest of [] \<Rightarrow> [] | c # cs \<Rightarrow> if c = 0x3A then cs else rest)) \<subseteq> set rest"
    by (auto split: list.splits dest!: set_dropWhileD)
  ultimately show ?thesis using Some by (simp add: replace_label_def)
qed

lemma removeLabel_spaces:
  assumes "c \<in> set (removeLabel (content_of el) w)" and "is_space c"
  shows "c = 0x20"
proof -
  from assms(1) have "c \<in> set (replace_label w (content_of el))"
    unfolding removeLabel_def using set_trim by blast
  then have "c \<in> set (content_of el)"
    using set_replace_label by blast
  then obtain s where "c \<in> set (cleanText s)"
    unfolding content_of_def Let_def by blast
  then show ?thesis using assms(2) by (rule cleanText_spaces)
qed

lemma phone_char_in_candidate:
  assumes "c \<in> set (removeLabel (content_of el) w)"
  shows "is_phone_char c \<longleftrightarrow>
    is_digit c \<or> c = 0x2B \<or> c = 0x2D \<or> c = 0x28 \<or> c = 0x29 \<or> c = 0x20"
proof -
  have "is_space c \<longleftrightarrow> c = 0x20"
    using removeLabel_spaces [OF assms] is_space_sp by blast
  then show ?thesis by (simp only: is_phone_char_def)
qed

section \<open>Properties of extraction\<close>

lemma find_sel_aria:
  "find sel_rating doc = Some e \<Longrightarrow> aria_label e \<noteq> None"
  "find sel_reviews doc = Some e \<Longrightarrow> aria_label e \<noteq> None"
  by (auto simp: find_Some_iff sel_rating_def sel_reviews_def attr_includes_def
           split: option.splits)

lemma rating_of_no_throw: "rating_of doc \<noteq> Inl e"
  using find_sel_aria(1) [of doc]
  by (auto simp: rating_of_def querySelector_def split: option.splits)

lemma reviews_of_no_throw: "reviews_of doc \<noteq> Inl e"
  using find_sel_aria(2) [of doc]
  by (auto simp: reviews_of_def querySelector_def split: option.splits)

lemma extractDetails_cases:
  "extractDetails doc u =
     (if cleanText (heading_text doc) = [] then Inr None
      else Inr (Some \<lparr>name = cleanText (heading_text doc),
                       phone = st_phone (scan_elements doc),
                       address = st_address (scan_elements doc),
                       website = website_fallback doc (st_website (scan_elements doc)),
                       rating = projr (rating_of doc), reviews = projr (reviews_of doc),
                       url = u\<rparr>))"
proof -
  obtain rt where rt: "rating_of doc = Inr rt"
    using rating_of_no_throw [of doc] by (cases "rating_of doc") auto
  obtain rv where rv: "reviews_of doc = Inr rv"
    using reviews_of_no_throw [of doc] by (cases "reviews_of doc") auto
  show ?thesis by (simp add: extractDetails_def rt rv Let_def)
qed

lemma scan_elements_none:
  "querySelectorAll sel_scan doc = [] \<Longrightarrow> scan_elements doc = scan_init"
  by (simp add: scan_elements_def)

lemma website_fallback_none:
  "querySelectorAll sel_http_link doc = [] \<Longrightarrow> website_fallback doc w = w"
  by (simp add: website_fallback_def)

text \<open>
  Claim C5. \<open>extractDetails\<close> returns \<open>null\<close> exactly when the text of the first
  \<open>h1\<close> (the empty string when there is none) consists of whitespace only, which is
  when its normalisation is empty. It never throws, and for every other heading it
  returns a record whatever else the page holds: a missing rating element gives
  \<open>'N/A'\<close>, a missing reviews element gives \<open>'0'\<close>, and with no element to scan the
  address, the phone and (with no outbound link either) the website are \<open>'N/A'\<close>.
\<close>

theorem extraction_rejects_only_blank_heading:
  "(extractDetails doc u = Inr None \<longleftrightarrow> (\<forall>c\<in>set (heading_text doc). is_space c)) \<and>
   (\<forall>e. extractDetails doc u \<noteq> Inl e) \<and>
   ((\<exists>c\<in>set (heading_text doc). \<not> is_space c) \<longrightarrow>
      (\<exists>d. extractDetails doc u = Inr (Some d) \<and>
           name d = cleanText (heading_text doc) \<and>
           (querySelector sel_rating doc = None \<longrightarrow> rating d = js ''N/A'') \<and>
           (querySelector sel_reviews doc = None \<longrightarrow> reviews d = JString (js ''0'')) \<and>
           (querySelectorAll sel_scan doc = [] \<longrightarrow>
              address d = js ''N/A'' \<and> phone d = js ''N/A'') \<and>
           (querySelectorAll sel_scan doc = [] \<and> querySelectorAll sel_http_link doc = [] \<longrightarrow>
              website d = js ''N/A'')))"
proof (intro conjI impI allI)
  show "extractDetails doc u = Inr None \<longleftrightarrow> (\<forall>c\<in>set (heading_text doc). is_space c)"
    by (simp add: extractDetails_cases cleanText_eq_Nil_iff)
next
  fix e show "extractDetails doc u \<noteq> Inl e"
    by (simp add: extractDetails_cases)
next
  assume "\<exists>c\<in>set (heading_text doc). \<not> is_space c"
  then have ne: "cleanText (heading_text doc) \<noteq> []"
    by (simp add: cleanText_eq_Nil_iff)
  show "\<exists>d. extractDetails doc u = Inr (Some d) \<and>
           name d = cleanText (heading_text doc) \<and>
           (querySelector sel_rating doc = None \<longrightarrow> rating d = js ''N/A'') \<and>
           (querySelector sel_reviews doc = None \<longrightarrow> reviews d = JString (js ''0'')) \<and>
           (querySelectorAll sel_scan doc = [] \<longrightarrow>
              address d = js ''N/A'' \<and> phone d = js ''N/A'') \<and>
           (querySelectorAll sel_scan doc = [] \<and> querySelectorAll sel_http_link doc = [] \<longrightarrow>
              website d = js ''N/A'')"
    using ne
    by (simp add: extractDetails_cases rating_of_def reviews_of_def scan_elements_none
          website_fallback_none scan_init_def)
qed

theorem extraction_rejects_only_blank_heading_witness:
  "extractDetails [heading_element (js '' \<newline>  '')] (js ''u'') = Inr None \<and>
   (\<exists>d. extractDetails [heading_element (js ''Acme Plumbing'')] (js ''u'') = Inr (Some d) \<and>
        name d = js ''Acme Plumbing'' \<and> rating d = js ''N/A'' \<and>
        reviews d = JString (js ''0'') \<and> address d = js ''N/A'' \<and>
        phone d = js ''N/A'' \<and> website d = js ''N/A'')"
proof -
  have blank: "\<forall>c\<in>set (heading_text [heading_element (js '' \<newline>  '')]). is_space c"
    by (simp add: heading_text_def dom_eval text_eval)
  have named: "\<exists>c\<in>set (heading_text [heading_element (js ''Acme Plumbing'')]). \<not> is_space c"
    by (simp add: heading_text_def dom_eval text_eval)
  have nm: "cleanText (heading_text [heading_element (js ''Acme Plumbing'')]) = js ''Acme Plumbing''"
    by (simp add: heading_text_def dom_eval text_eval)
  show ?thesis
    using extraction_rejects_only_blank_heading [of "[heading_element (js '' \<newline>  '')]" "js ''u''"]
      extraction_rejects_only_blank_heading [of "[heading_element (js ''Acme Plumbing'')]" "js ''u''"]
      blank named nm
    by (auto simp: dom_eval)
qed

lemmas fixture_defs = rating_element_def reviews_element_def item_element_def rated_page_def

lemma digits_match_digits:
  "digits_match l = Some m \<Longrightarrow> \<forall>c\<in>set (remove_commas m). is_digit c"
  by (auto simp: digits_match_def remove_commas_def Let_def is_digit_or_comma_def
           split: if_splits dest: set_takeWhileD)

lemma reviews_of_digits:
  "\<exists>r. reviews_of doc = Inr (JString r) \<and> (\<forall>c\<in>set r. is_digit c)"
proof (cases "querySelector sel_reviews doc")
  case None
  then show ?thesis by (simp add: reviews_of_def js_def is_digit_def)
next
  case (Some e)
  then obtain l where l: "aria_label e = Some l"
    using find_sel_aria(2) [of doc e] by (auto simp: querySelector_def)
  show ?thesis
  proof (cases "digits_match l")
    case None
    with Some l show ?thesis by (simp add: reviews_of_def js_def is_digit_def)
  next
    case (Some m)
    with \<open>querySelector sel_reviews doc = Some e\<close> l digits_match_digits [OF Some]
    show ?thesis by (simp add: reviews_of_def)
  qed
qed

text \<open>
  Claim C3 as stated fails on the reviews: the source never parses the digits, so a
  reviews label \<open>"1,234 reviews"\<close> gives the string \<open>"1234"\<close>, not the number 1234.
\<close>

theorem reviews_integer_counterexample:
  "extractDetails rated_page (js ''u'') =
     Inr (Some \<lparr>name = js ''Acme Plumbing'', phone = js ''N/A'', address = js ''N/A'',
                 website = js ''N/A'', rating = js ''4.5'',
                 reviews = JString (js ''1234''), url = js ''u''\<rparr>) \<and>
   JString (js ''1234'') \<noteq> JNumber 1234"
  by (simp add: extractDetails_cases heading_text_def rating_of_def reviews_of_def
        scan_elements_def scan_init_def website_fallback_def scan_element_def
        is_address_candidate_def is_phone_candidate_def is_website_candidate_def
        content_of_def fixture_defs dom_eval text_eval)

text \<open>
  Claim C3, amended. For every page whose heading is not blank, extraction returns a
  record in which: the rating is \<open>'N/A'\<close> when no rating element exists and otherwise
  the label's text before its first space, so \<open>"4.5 stars"\<close> gives \<open>"4.5"\<close>; the
  reviews are the string \<open>'0'\<close> when no reviews element exists, the string
  \<open>"1234"\<close> for the label \<open>"1,234 reviews"\<close>, and always a string of decimal digits
  (the commas stripped), never a number.
\<close>

theorem rating_and_reviews_parsing:
  assumes "\<exists>c\<in>set (heading_text doc). \<not> is_space c"
  shows "\<exists>d. extractDetails doc u = Inr (Some d) \<and>
           (querySelector sel_rating doc = None \<longrightarrow> rating d = js ''N/A'') \<and>
           (\<forall>e l. querySelector sel_rating doc = Some e \<and> aria_label e = Some l \<longrightarrow>
                  rating d = takeWhile (\<lambda>c. c \<noteq> 0x20) l) \<and>
           (\<forall>e. querySelector sel_rating doc = Some e \<and>
                aria_label e = Some (js ''4.5 stars'') \<longrightarrow> rating d = js ''4.5'') \<and>
           (querySelector sel_reviews doc = None \<longrightarrow> reviews d = JString (js ''0'')) \<and>
           (\<forall>e. querySelector sel_reviews doc = Some e \<and>
                aria_label e = Some (js ''1,234 reviews'') \<longrightarrow>
                reviews d = JString (js ''1234'')) \<and>
           (\<exists>r. reviews d = JString r \<and> (\<forall>c\<in>set r. is_digit c))"
proof -
  from assms have ne: "cleanText (heading_text doc) \<noteq> []"
    by (simp add: cleanText_eq_Nil_iff)
  obtain r where r: "reviews_of doc = Inr (JString r)" "\<forall>c\<in>set r. is_digit c"
    using reviews_of_digits by blast
  have lbl: "split_space_first (js ''4.5 stars'') = js ''4.5''"
    by (simp add: text_eval)
  have rv: "digits_match (js ''1,234 reviews'') = Some (js ''1,234'')"
    "remove_commas (js ''1,234'') = js ''1234''"
    by (simp_all add: text_eval)
  show ?thesis
    using ne r lbl rv
    by (auto simp: extractDetails_cases rating_of_def reviews_of_def split_space_first_def
             split: option.splits)
qed

theorem rating_and_reviews_parsing_witness:
  "\<exists>d. extractDetails rated_page (js ''u'') = Inr (Some d) \<and>
       rating d = js ''4.5'' \<and> reviews d = JString (js ''1234'')"
proof -
  have h: "\<exists>c\<in>set (heading_text rated_page). \<not> is_space c"
    by (simp add: heading_text_def fixture_defs dom_eval text_eval)
  have r: "querySelector sel_rating rated_page = Some (rating_element (js ''4.5 stars''))"
    by (simp add: fixture_defs dom_eval text_eval)
  have v: "querySelector sel_reviews rated_page = Some (reviews_element (js ''1,234 reviews''))"
    by (simp add: fixture_defs dom_eval text_eval)
  have a: "aria_label (rating_element (js ''4.5 stars'')) = Some (js ''4.5 stars'')"
    "aria_label (reviews_element (js ''1,234 reviews'')) = Some (js ''1,234 reviews'')"
    by (simp_all add: fixture_defs)
  show ?thesis
    using rating_and_reviews_parsing [OF h, of "js ''u''"] r v a by auto
qed

lemma st_address_scan_element:
  "st_address (scan_element el st) =
     (if is_address_candidate el \<and> 5 < length (removeLabel (content_of el) (js ''Address''))
      then removeLabel (content_of el) (js ''Address'') else st_address st)"
  by (simp add: scan_element_def Let_def)

lemma st_phone_scan_element:
  "st_phone (scan_element el st) =
     (if is_phone_candidate el \<and> phone_match (removeLabel (content_of el) (js ''Phone''))
      then removeLabel (content_of el) (js ''Phone'') else st_phone st)"
  by (simp add: scan_element_def Let_def)

lemma st_address_fold:
  "st_address (fold scan_element els st) =
     (case filter valid_address els of
        [] \<Rightarrow> st_address st
      | _ # _ \<Rightarrow> removeLabel (content_of (last (filter valid_address els))) (js ''Address''))"
proof (induction els rule: rev_induct)
  case Nil
  show ?case by simp
next
  case (snoc el els)
  show ?case
    using snoc.IH
    by (simp add: st_address_scan_element valid_address_def split: list.splits)
qed

lemma phone_match_run:
  "phone_match s \<longleftrightarrow>
     (\<exists>a b c. s = a @ b @ c \<and> 5 \<le> length b \<and> (\<forall>x\<in>set b. is_phone_char x))"
proof
  show "phone_match s \<Longrightarrow>
     \<exists>a b c. s = a @ b @ c \<and> 5 \<le> length b \<and> (\<forall>x\<in>set b. is_phone_char x)"
  proof (induction s)
    case Nil
    then show ?case by simp
  next
    case (Cons x xs)
    show ?case
    proof (cases "5 \<le> length (takeWhile is_phone_char (x # xs))")
      case True
      have "x # xs = [] @ takeWhile is_phone_char (x # xs) @ dropWhile is_phone_char (x # xs)"
        by simp
      moreover have "\<forall>y\<in>set (takeWhile is_phone_char (x # xs)). is_phone_char y"
        by (auto dest: set_takeWhileD)
      ultimately show ?thesis using True by blast
    next
      case False
      with Cons.prems have "phone_match xs" by simp
      then obtain a b c where "xs = a @ b @ c" "5 \<le> length b" "\<forall>y\<in>set b. is_phone_char y"
        using Cons.IH by blast
      then have "x # xs = (x # a) @ b @ c" by simp
      with \<open>5 \<le> length b\<close> \<open>\<forall>y\<in>set b. is_phone_char y\<close> show ?thesis by blast
    qed
  qed
next
  assume "\<exists>a b c. s = a @ b @ c \<and> 5 \<le> length b \<and> (\<forall>x\<in>set b. is_phone_char x)"
  then obtain a b c where s: "s = a @ b @ c" and len: "5 \<le> length b"
    and cls: "\<forall>x\<in>set b. is_phone_char x" by blast
  have run: "5 \<le> length (takeWhile is_phone_char (b @ c))"
    using len cls by (simp add: takeWhile_append2)
  have "phone_match (a @ b @ c)"
  proof (induction a)
    case Nil
    from len obtain y ys where "b = y # ys" by (cases b) auto
    with run show ?case by simp
  next
    case (Cons y ys)
    then show ?case by simp
  qed
  with s show "phone_match s" by simp
qed

text \<open>
  Claim C6. An element classified as an address candidate whose text, after the label
  prefix is removed and the ends trimmed, has at most 5 code units leaves the address as
  it was; a longer one is stored. So the address of the returned record is \<open>'N/A'\<close>
  exactly when no scanned candidate is longer than 5, and a stored address is longer
  than 5.
\<close>

theorem address_validity_filter:
  "(is_address_candidate el \<longrightarrow>
      st_address (scan_element el st) =
        (if length (removeLabel (content_of el) (js ''Address'')) \<le> 5 then st_address st
         else removeLabel (content_of el) (js ''Address''))) \<and>
   (extractDetails doc u = Inr (Some d) \<longrightarrow>
      (address d = js ''N/A'' \<longleftrightarrow>
         (\<forall>el\<in>set (querySelectorAll sel_scan doc). is_address_candidate el \<longrightarrow>
            length (removeLabel (content_of el) (js ''Address'')) \<le> 5)) \<and>
      (address d \<noteq> js ''N/A'' \<longrightarrow> 5 < length (address d)))"
proof (intro conjI impI)
  assume "is_address_candidate el"
  then show "st_address (scan_element el st) =
        (if length (removeLabel (content_of el) (js ''Address'')) \<le> 5 then st_address st
         else removeLabel (content_of el) (js ''Address''))"
    by (simp add: st_address_scan_element)
next
  assume ex: "extractDetails doc u = Inr (Some d)"
  let ?els = "querySelectorAll sel_scan doc"
  have addr: "address d = st_address (fold scan_element ?els scan_init)"
    using ex by (auto simp: extractDetails_cases scan_elements_def split: if_splits)
  have na: "length (js ''N/A'') = 3" by (simp add: js_def)
  show "address d = js ''N/A'' \<longleftrightarrow>
         (\<forall>el\<in>set ?els. is_address_candidate el \<longrightarrow>
            length (removeLabel (content_of el) (js ''Address'')) \<le> 5)"
  proof (cases "filter valid_address ?els")
    case Nil
    then have "\<forall>el\<in>set ?els. \<not> valid_address el"
      by (simp add: filter_empty_conv)
    with Nil show ?thesis
      by (auto simp: addr st_address_fold scan_init_def valid_address_def)
  next
    case (Cons x xs)
    then have "last (filter valid_address ?els) \<in> set (filter valid_address ?els)"
      by simp
    then have v: "valid_address (last (filter valid_address ?els))"
      and m: "last (filter valid_address ?els) \<in> set ?els" by auto
    from v na have "removeLabel (content_of (last (filter valid_address ?els))) (js ''Address'')
        \<noteq> js ''N/A''"
      by (auto simp: valid_address_def)
    with Cons v m show ?thesis
      by (auto simp: addr st_address_fold valid_address_def)
  qed
  show "5 < length (address d)" if "address d \<noteq> js ''N/A''"
  proof (cases "filter valid_address ?els")
    case Nil
    with that show ?thesis by (simp add: addr st_address_fold scan_init_def)
  next
    case (Cons x xs)
    then have "last (filter valid_address ?els) \<in> set (filter valid_address ?els)"
      by simp
    then have "valid_address (last (filter valid_address ?els))" by auto
    with Cons show ?thesis by (simp add: addr st_address_fold valid_address_def)
  qed
qed

theorem address_validity_filter_witness:
  "st_address (scan_element (item_element (js ''address'') (js ''Address: Agra'')) scan_init)
     = js ''N/A'' \<and>
   st_address (scan_element (item_element (js ''address'') (js ''Address: 12 Main Street''))
     scan_init) = js ''12 Main Street'' \<and>
   (\<exists>d. extractDetails (address_page (js ''Address: Agra'')) (js ''u'') = Inr (Some d) \<and>
        address d = js ''N/A'')"
proof -
  let ?short = "item_element (js ''address'') (js ''Address: Agra'')"
  let ?long = "item_element (js ''address'') (js ''Address: 12 Main Street'')"
  have c: "is_address_candidate ?short" "is_address_candidate ?long"
    by (simp_all add: is_address_candidate_def fixture_defs dom_eval)
  have s: "removeLabel (content_of ?short) (js ''Address'') = js ''Agra''"
    by (simp add: content_of_def fixture_defs dom_eval text_eval)
  have l: "removeLabel (content_of ?long) (js ''Address'') = js ''12 Main Street''"
    by (simp add: content_of_def fixture_defs dom_eval text_eval)
  have len: "length (js ''Agra'') = 4" "length (js ''12 Main Street'') = 14"
    by (simp_all add: js_def)
  have init: "st_address scan_init = js ''N/A''"
    by (simp add: scan_init_def)
  obtain d where d: "extractDetails (address_page (js ''Address: Agra'')) (js ''u'') = Inr (Some d)"
    by (simp add: extractDetails_cases heading_text_def address_page_def dom_eval text_eval)
  have els: "querySelectorAll sel_scan (address_page (js ''Address: Agra'')) = [?short]"
    by (simp add: address_page_def fixture_defs dom_eval)
  from address_validity_filter [of ?short scan_init
      "address_page (js ''Address: Agra'')" "js ''u''" d]
    address_validity_filter [of ?long scan_init
      "address_page (js ''Address: Agra'')" "js ''u''" d]
  show ?thesis
    using c s l len init d els by simp
qed

text \<open>
  Claim C7. An element classified as a phone candidate populates the phone only if its
  text, the label prefix removed, matches \<open>/[\d\+\-\(\)\s]{5,}/\<close>, which is to
  contain five consecutive characters among digits, \<open>+\<close>, \<open>-\<close>, \<open>(\<close>, \<open>)\<close>
  and blanks. \<open>"Call us now"\<close> does not match and the phone stays \<open>'N/A'\<close>;
  \<open>"+1 (555) 123-4567"\<close> matches and becomes the phone. The text of a candidate
  is normalised, so the only blank in it is the space.
\<close>

theorem phone_validity_filter:
  "(is_phone_candidate el \<longrightarrow>
      st_phone (scan_element el st) =
        (if phone_match (removeLabel (content_of el) (js ''Phone''))
         then removeLabel (content_of el) (js ''Phone'') else st_phone st)) \<and>
   (phone_match s \<longleftrightarrow>
      (\<exists>a b c. s = a @ b @ c \<and> 5 \<le> length b \<and> (\<forall>x\<in>set b. is_phone_char x))) \<and>
   \<not> phone_match (js ''Call us now'') \<and>
   phone_match (js ''+1 (555) 123-4567'') \<and>
   (\<exists>d. extractDetails (phone_page (js ''Call us now'')) u = Inr (Some d) \<and>
        phone d = js ''N/A'') \<and>
   (\<exists>d. extractDetails (phone_page (js ''+1 (555) 123-4567'')) u = Inr (Some d) \<and>
        phone d = js ''+1 (555) 123-4567'') \<and>
   (\<forall>c\<in>set (removeLabel (content_of el) (js ''Phone'')).
      is_phone_char c \<longleftrightarrow>
        is_digit c \<or> c = 0x2B \<or> c = 0x2D \<or> c = 0x28 \<or> c = 0x29 \<or> c = 0x20)"
proof (intro conjI impI)
  assume "is_phone_candidate el"
  then show "st_phone (scan_element el st) =
        (if phone_match (removeLabel (content_of el) (js ''Phone''))
         then removeLabel (content_of el) (js ''Phone'') else st_phone st)"
    by (simp add: st_phone_scan_element)
next
  show "phone_match s \<longleftrightarrow>
      (\<exists>a b c. s = a @ b @ c \<and> 5 \<le> length b \<and> (\<forall>x\<in>set b. is_phone_char x))"
    by (rule phone_match_run)
next
  show no: "\<not> phone_match (js ''Call us now'')"
    by (simp add: text_eval)
  show yes: "phone_match (js ''+1 (555) 123-4567'')"
    by (simp add: text_eval)
  have h: "cleanText (heading_text (phone_page t)) = js ''Acme Plumbing''" for t
    by (simp add: heading_text_def phone_page_def dom_eval text_eval)
  have ne: "js ''Acme Plumbing'' \<noteq> []"
    by (simp add: js_def)
  have els: "querySelectorAll sel_scan (phone_page t) = [item_element (js ''phone:tel:0'') t]"
    for t by (simp add: phone_page_def fixture_defs dom_eval)
  have cand: "is_phone_candidate (item_element (js ''phone:tel:0'') t)" for t
    by (simp add: is_phone_candidate_def fixture_defs dom_eval js_def)
  have c1: "removeLabel (content_of (item_element (js ''phone:tel:0'') (js ''Call us now'')))
      (js ''Phone'') = js ''Call us now''"
    by (simp add: content_of_def fixture_defs dom_eval text_eval)
  have c2: "removeLabel
      (content_of (item_element (js ''phone:tel:0'') (js ''+1 (555) 123-4567'')))
      (js ''Phone'') = js ''+1 (555) 123-4567''"
    by (simp add: content_of_def fixture_defs dom_eval text_eval)
  show "\<exists>d. extractDetails (phone_page (js ''Call us now'')) u = Inr (Some d) \<and>
        phone d = js ''N/A''"
    using no
    by (simp add: extractDetails_cases h ne scan_elements_def els st_phone_scan_element
          cand c1 scan_init_def)
  show "\<exists>d. extractDetails (phone_page (js ''+1 (555) 123-4567'')) u = Inr (Some d) \<and>
        phone d = js ''+1 (555) 123-4567''"
    using yes
    by (simp add: extractDetails_cases h ne scan_elements_def els st_phone_scan_element
          cand c2)
  show "\<forall>c\<in>set (removeLabel (content_of el) (js ''Phone'')).
      is_phone_char c \<longleftrightarrow>
        is_digit c \<or> c = 0x2B \<or> c = 0x2D \<or> c = 0x28 \<or> c = 0x29 \<or> c = 0x20"
    using phone_char_in_candidate by blast
qed

theorem phone_validity_filter_witness:
  "st_phone (scan_element (item_element (js ''phone:tel:0'') (js ''Call 12345 now'')) scan_init)
     = js ''Call 12345 now'' \<and>
   st_phone (scan_element (item_element (js ''phone:tel:0'') (js ''Call us now'')) scan_init)
     = js ''N/A'' \<and>
   phone_match (js ''Call 12345 now'')"
proof -
  let ?digits = "item_element (js ''phone:tel:0'') (js ''Call 12345 now'')"
  let ?words = "item_element (js ''phone:tel:0'') (js ''Call us now'')"
  note filter_digits =
    phone_validity_filter [of ?digits scan_init "js ''Call 12345 now''" "js ''u''"]
  note filter_words =
    phone_validity_filter [of ?words scan_init "js ''Call us now''" "js ''u''"]
  have cand: "is_phone_candidate ?digits" "is_phone_candidate ?words"
    by (simp_all add: is_phone_candidate_def fixture_defs dom_eval js_def)
  have c: "removeLabel (content_of ?digits) (js ''Phone'') = js ''Call 12345 now''"
    "removeLabel (content_of ?words) (js ''Phone'') = js ''Call us now''"
    by (simp_all add: content_of_def fixture_defs dom_eval text_eval)
  have parts: "js ''Call 12345 now'' = js ''Call'' @ js '' 12345 '' @ js ''now''"
    by (simp add: js_def)
  have run: "5 \<le> length (js '' 12345 '')" "\<forall>x\<in>set (js '' 12345 ''). is_phone_char x"
    by (simp_all add: text_eval)
  have m: "phone_match (js ''Call 12345 now'')"
    using filter_digits parts run by blast
  have n: "\<not> phone_match (js ''Call us now'')"
    using filter_words by blast
  have init: "st_phone scan_init = js ''N/A''"
    by (simp add: scan_init_def)
  have "st_phone (scan_element ?digits scan_init) = js ''Call 12345 now''"
    using filter_digits [THEN conjunct1, THEN mp, OF cand(1)] by (simp add: c(1) m)
  moreover have "st_phone (scan_element ?words scan_init) = js ''N/A''"
    using filter_words [THEN conjunct1, THEN mp, OF cand(2)] by (simp add: c(2) n init)
  ultimately show ?thesis using m by blast
qed

text \<open>
  Claim C8. The name is the heading text normalised by \<open>cleanText\<close>, and
  \<open>cleanText\<close> returns the words of its argument (the maximal runs of characters
  that are not whitespace, line breaks being whitespace) separated by single spaces,
  with nothing before the first word or after the last. For the heading
  \<open>"  Joe's\n Cafe  "\<close> the name is \<open>"Joe's Cafe"\<close>.
\<close>

theorem heading_name_normalisation:
  "cleanText s = join_sp (ws_words s) \<and>
   (\<forall>w\<in>set (ws_words s). w \<noteq> [] \<and> (\<forall>c\<in>set w. \<not> is_space c)) \<and>
   concat (ws_words s) = filter (\<lambda>c. \<not> is_space c) s \<and>
   (extractDetails doc u = Inr (Some d) \<longrightarrow>
      name d = join_sp (ws_words (heading_text doc))) \<and>
   (\<exists>d. extractDetails cafe_page u = Inr (Some d) \<and> name d = js ''Joe's Cafe'')"
proof (intro conjI impI)
  show "cleanText s = join_sp (ws_words s)"
    by (rule cleanText_words)
  show "\<forall>w\<in>set (ws_words s). w \<noteq> [] \<and> (\<forall>c\<in>set w. \<not> is_space c)"
    by (rule ws_words_nonblank)
  show "concat (ws_words s) = filter (\<lambda>c. \<not> is_space c) s"
    by (rule concat_ws_words)
  show "name d = join_sp (ws_words (heading_text doc))"
    if "extractDetails doc u = Inr (Some d)"
    using that by (auto simp: extractDetails_cases cleanText_words split: if_splits)
  have "cleanText (heading_text cafe_page) = js ''Joe's Cafe''"
    by (simp add: heading_text_def cafe_page_def dom_eval text_eval)
  moreover have "js ''Joe's Cafe'' \<noteq> []"
    by (simp add: js_def)
  ultimately show "\<exists>d. extractDetails cafe_page u = Inr (Some d) \<and> name d = js ''Joe's Cafe''"
    by (simp add: extractDetails_cases)
qed

theorem heading_name_normalisation_witness:
  "ws_words (js ''  Joe's\<newline> Cafe  '') = [js ''Joe's'', js ''Cafe''] \<and>
   extractDetails cafe_page (js ''u'') =
     Inr (Some \<lparr>name = js ''Joe's Cafe'', phone = js ''N/A'', address = js ''N/A'',
                 website = js ''N/A'', rating = js ''N/A'', reviews = JString (js ''0''),
                 url = js ''u''\<rparr>)"
proof -
  let ?d = "\<lparr>name = js ''Joe's Cafe'', phone = js ''N/A'', address = js ''N/A'',
             website = js ''N/A'', rating = js ''N/A'', reviews = JString (js ''0''),
             url = js ''u''\<rparr>"
  have w: "ws_words (js ''  Joe's\<newline> Cafe  '') = [js ''Joe's'', js ''Cafe'']"
    by (simp add: js_def is_space_def)
  have h: "heading_text cafe_page = js ''  Joe's\<newline> Cafe  ''"
    by (simp add: heading_text_def cafe_page_def dom_eval)
  have j: "join_sp [js ''Joe's'', js ''Cafe''] = js ''Joe's Cafe''"
    by (simp add: js_def)
  have r: "extractDetails cafe_page (js ''u'') =
      Inr (Some (?d\<lparr>name := cleanText (heading_text cafe_page)\<rparr>))"
    by (simp add: extractDetails_cases heading_text_def rating_of_def reviews_of_def
          scan_elements_def scan_init_def website_fallback_def cafe_page_def dom_eval
          text_eval)
  note nm = heading_name_normalisation
    [of "js ''  Joe's\<newline> Cafe  ''" cafe_page "js ''u''"
      "?d\<lparr>name := cleanText (heading_text cafe_page)\<rparr>",
      THEN conjunct2, THEN conjunct2, THEN conjunct2, THEN conjunct1, THEN mp, OF r]
  have "name (?d\<lparr>name := cleanText (heading_text cafe_page)\<rparr>) =
      join_sp (ws_words (heading_text cafe_page))"
    by (rule nm)
  also have "\<dots> = js ''Joe's Cafe''"
    unfolding h w j ..
  finally have "cleanText (heading_text cafe_page) = js ''Joe's Cafe''"
    by simp
  with r w show ?thesis by simp
qed

section \<open>Properties of discovery\<close>

lemma fold_set_add_snoc: "fold set_add (hs @ [h]) acc = set_add h (fold set_add hs acc)"
  by simp

lemma set_fold_set_add: "set (fold set_add hs acc) = set acc \<union> set hs"
  by (induction hs arbitrary: acc) (auto simp: set_add_def)

lemma distinct_fold_set_add: "distinct acc \<Longrightarrow> distinct (fold set_add hs acc)"
  by (induction hs arbitrary: acc) (auto simp: set_add_def)

lemma first_index_append_mem: "x \<in> set xs \<Longrightarrow> first_index (xs @ ys) x = first_index xs x"
  by (simp add: first_index_def takeWhile_append1 split_list_first)

lemma first_index_less: "x \<in> set xs \<Longrightarrow> first_index xs x < length xs"
  by (induction xs) (auto simp: first_index_def)

lemma first_index_snoc_new: "x \<notin> set xs \<Longrightarrow> first_index (xs @ [x]) x = length xs"
  by (induction xs) (auto simp: first_index_def)

lemma first_seen_order:
  "sorted_wrt (\<lambda>a b. first_index hs a < first_index hs b) (fold set_add hs [])"
proof (induction hs rule: rev_induct)
  case Nil
  show ?case by simp
next
  case (snoc h hs)
  let ?D = "fold set_add hs []"
  have D: "set ?D = set hs" by (simp add: set_fold_set_add)
  have keep: "sorted_wrt (\<lambda>a b. first_index (hs @ [h]) a < first_index (hs @ [h]) b) ?D"
    using snoc.IH
    by (rule sorted_wrt_mono_rel [rotated]) (simp add: D first_index_append_mem)
  have step: "fold set_add (hs @ [h]) [] = (if h \<in> set hs then ?D else ?D @ [h])"
    by (simp only: fold_set_add_snoc set_add_def [of h ?D] D)
  show ?case
  proof (cases "h \<in> set hs")
    case True
    with keep show ?thesis by (simp only: step if_True)
  next
    case False
    have "\<forall>a\<in>set ?D. first_index (hs @ [h]) a < first_index (hs @ [h]) h"
      using False by (simp add: D first_index_append_mem first_index_snoc_new first_index_less)
    with keep have "sorted_wrt (\<lambda>a b. first_index (hs @ [h]) a < first_index (hs @ [h]) b)
        (?D @ [h])"
      by (simp add: sorted_wrt_append)
    with False show ?thesis by (simp only: step if_False)
  qed
qed

lemma slice0_nonneg: "0 \<le> e \<Longrightarrow> slice0 arr e = take (nat e) arr"
  by (auto simp: slice0_def Let_def min_def)

lemma results_dom_hrefs:
  "place_hrefs results_dom =
     [js ''https://g.co/maps/place/A'', js ''https://g.co/maps/place/B'',
      js ''https://g.co/maps/place/A'', js ''https://g.co/maps/place/C'']"
  by (simp add: place_hrefs_def results_dom_def place_anchor_def dom_eval js_def)

lemma results_dom_count: "place_link_count results_dom = 4"
  by (simp add: place_link_count_def results_dom_def place_anchor_def dom_eval js_def)

lemma static_page_scroll:
  "scroll_page static_page 20 =
     Some (9, [800, 800, - 300, 800, 800, 800, 800, 800, 800, 800])"
  by (simp add: scroll_page_def static_page_def static_feed_def scroll_loop.simps
        results_dom_count distance_def)

text \<open>
  Claim C1. For a \<open>maxCount\<close> of 0 or more, \<open>collectUrls\<close> returns exactly when
  the scroll loop stops, and the addresses it returns are pairwise distinct, at most
  \<open>maxCount\<close> many, all among the targets of the place links rendered in the
  document, and listed in the order of their first occurrence there; an address left
  out was first seen after every address returned.
\<close>

theorem collectUrls_distinct_bounded_first_seen:
  assumes "0 \<le> maxCount"
  shows "(collectUrls pg maxCount = None \<longleftrightarrow> scroll_page pg maxCount = None) \<and>
         (\<forall>res. collectUrls pg maxCount = Some res \<longrightarrow>
            distinct res \<and> int (length res) \<le> maxCount \<and>
            set res \<subseteq> set (place_hrefs (final_dom pg)) \<and>
            sorted_wrt (\<lambda>a b. first_index (place_hrefs (final_dom pg)) a
                             < first_index (place_hrefs (final_dom pg)) b) res \<and>
            (\<forall>h\<in>set (place_hrefs (final_dom pg)) - set res. \<forall>r\<in>set res.
               first_index (place_hrefs (final_dom pg)) r
                 < first_index (place_hrefs (final_dom pg)) h))"
proof (rule conjI, goal_cases)
  case 1
  show ?case
    by (simp add: collectUrls_def Let_def split: option.splits)
next
  case 2
  have "distinct res \<and> int (length res) \<le> maxCount \<and>
            set res \<subseteq> set (place_hrefs (final_dom pg)) \<and>
            sorted_wrt (\<lambda>a b. first_index (place_hrefs (final_dom pg)) a
                             < first_index (place_hrefs (final_dom pg)) b) res \<and>
            (\<forall>h\<in>set (place_hrefs (final_dom pg)) - set res. \<forall>r\<in>set res.
               first_index (place_hrefs (final_dom pg)) r
                 < first_index (place_hrefs (final_dom pg)) h)"
    if returned: "collectUrls pg maxCount = Some res" for res
  proof -
    let ?hrefs = "place_hrefs (final_dom pg)"
    let ?D = "fold set_add ?hrefs []"
    let ?lt = "\<lambda>a b. first_index ?hrefs a < first_index ?hrefs b"
    let ?n = "nat maxCount"
    from assms returned have res: "res = take ?n ?D"
      by (auto simp: collectUrls_def Let_def slice0_nonneg split: option.splits)
    have D: "distinct ?D" "set ?D = set ?hrefs" "sorted_wrt ?lt ?D"
      by (simp_all add: distinct_fold_set_add set_fold_set_add first_seen_order)
    have "sorted_wrt ?lt (take ?n ?D @ drop ?n ?D)"
      using D(3) by simp
    then have later: "\<forall>r\<in>set (take ?n ?D). \<forall>h\<in>set (drop ?n ?D). ?lt r h"
      and ordered: "sorted_wrt ?lt (take ?n ?D)"
      unfolding sorted_wrt_append by blast+
    have "set ?hrefs - set (take ?n ?D) \<subseteq> set (drop ?n ?D)"
      using D(2) set_append [of "take ?n ?D" "drop ?n ?D"] by auto
    with later have "\<forall>h\<in>set ?hrefs - set (take ?n ?D). \<forall>r\<in>set (take ?n ?D). ?lt r h"
      by blast
    moreover have "set (take ?n ?D) \<subseteq> set ?hrefs"
      using D(2) set_take_subset [of ?n ?D] by simp
    moreover have "int (length (take ?n ?D)) \<le> maxCount"
      using assms(1) by simp
    ultimately show ?thesis
      using D(1) ordered unfolding res by (simp only: distinct_take simp_thms)
  qed
  then show ?case by blast
qed

theorem collectUrls_distinct_bounded_first_seen_witness:
  "collectUrls static_page 20 =
     Some [js ''https://g.co/maps/place/A'', js ''https://g.co/maps/place/B'',
           js ''https://g.co/maps/place/C''] \<and>
   distinct [js ''https://g.co/maps/place/A'', js ''https://g.co/maps/place/B'',
             js ''https://g.co/maps/place/C''] \<and>
   first_index (place_hrefs (final_dom static_page)) (js ''https://g.co/maps/place/B'')
     < first_index (place_hrefs (final_dom static_page)) (js ''https://g.co/maps/place/C'')"
proof -
  let ?res = "[js ''https://g.co/maps/place/A'', js ''https://g.co/maps/place/B'',
               js ''https://g.co/maps/place/C'']"
  have fd: "final_dom static_page = results_dom"
    by (simp add: static_page_def)
  have r: "collectUrls static_page 20 = Some ?res"
    by (simp add: collectUrls_def static_page_scroll fd results_dom_hrefs set_add_def
          slice0_def js_def)
  have "(0::int) \<le> 20" by simp
  from collectUrls_distinct_bounded_first_seen [OF this, of static_page] r
  show ?thesis by simp
qed

lemma stops_by_Some [simp]: "stops_by (Some (n, acts)) b \<longleftrightarrow> n \<le> b"
  by (simp add: stops_by_def)

lemma stops_by_mono: "stops_by r b \<Longrightarrow> b \<le> c \<Longrightarrow> stops_by r c"
  by (auto simp: stops_by_def)

lemma scroll_loop_target:
  "mx \<le> int (place_link_count (dom (env (i + k)))) \<Longrightarrow>
   stops_by (scroll_loop env mx retries i acts) (i + k + 1)"
proof (induction k arbitrary: retries i acts)
  case 0
  then show ?case
    by (subst scroll_loop.simps) (simp add: Let_def)
next
  case (Suc k)
  have IH: "stops_by (scroll_loop env mx r (Suc i) a) b" if "b = i + Suc k + 1"
    for r a b using Suc.IH [of "Suc i" r a] Suc.prems that by simp
  show ?case
    by (subst scroll_loop.simps) (simp add: Let_def IH)
qed

lemma scroll_loop_stalled:
  "retries \<le> 8 \<Longrightarrow>
   \<forall>j<9 - retries. sh_after (env (i + j)) = sh_before (env (i + j)) \<Longrightarrow>
   stops_by (scroll_loop env mx retries i acts) (i + (9 - retries))"
proof (induction "8 - retries" arbitrary: retries i acts)
  case 0
  from "0.prems"(1) have "0 < 9 - retries" by simp
  with "0.prems"(2) have "sh_after (env (i + 0)) = sh_before (env (i + 0))" by blast
  then have st: "sh_after (env i) = sh_before (env i)" by simp
  from "0.hyps" "0.prems"(1) have r: "retries = 8" by simp
  show ?case
    by (subst scroll_loop.simps) (simp add: Let_def st r)
next
  case (Suc k)
  from Suc.prems(1) have "0 < 9 - retries" by simp
  with Suc.prems(2) have "sh_after (env (i + 0)) = sh_before (env (i + 0))" by blast
  then have st: "sh_after (env i) = sh_before (env i)" by simp
  from Suc.hyps(2) have r: "retries < 8" by simp
  have "\<forall>j<9 - Suc retries. sh_after (env (Suc i + j)) = sh_before (env (Suc i + j))"
  proof (intro allI impI)
    fix j assume "j < 9 - Suc retries"
    then have "Suc j < 9 - retries" by simp
    with Suc.prems(2) have "sh_after (env (i + Suc j)) = sh_before (env (i + Suc j))"
      by blast
    then show "sh_after (env (Suc i + j)) = sh_before (env (Suc i + j))" by simp
  qed
  moreover have "k = 8 - Suc retries" "Suc retries \<le> 8"
    using Suc.hyps(2) r by simp_all
  ultimately have "stops_by (scroll_loop env mx (Suc retries) (Suc i) a)
      (Suc i + (9 - Suc retries))" for a
    using Suc.hyps(1) [of "Suc retries" "Suc i" a] by blast
  moreover have "Suc i + (9 - Suc retries) \<le> i + (9 - retries)"
    using r by simp
  ultimately have "stops_by (scroll_loop env mx (Suc retries) (Suc i) a)
      (i + (9 - retries))" for a
    by (rule stops_by_mono)
  then have IH: "stops_by (scroll_loop env mx r' (Suc i) a) b"
    if "r' = Suc retries" "b = i + (9 - retries)" for r' a b
    using that by simp
  have "stops_by (scroll_loop env mx retries i acts) b" if b: "b = i + (9 - retries)" for b
  proof -
    from b r have "Suc i \<le> b" by simp
    then show ?thesis
      using r b by (subst scroll_loop.simps) (simp add: Let_def st IH)
  qed
  then show ?case by simp
qed

lemma scroll_loop_stall_later:
  "retries \<le> 8 \<Longrightarrow>
   \<forall>j<9. sh_after (env (i + k + j)) = sh_before (env (i + k + j)) \<Longrightarrow>
   stops_by (scroll_loop env mx retries i acts) (i + k + 9)"
proof (induction k arbitrary: retries i acts)
  case 0
  then have "\<forall>j<9 - retries. sh_after (env (i + j)) = sh_before (env (i + j))"
    by simp
  from scroll_loop_stalled [OF 0(1) this, of mx acts]
  show ?case by (rule stops_by_mono) simp
next
  case (Suc k)
  have IH: "stops_by (scroll_loop env mx r (Suc i) a) b"
    if "r \<le> 8" "b = i + Suc k + 9" for r a b
    using Suc.IH [of r "Suc i" a] Suc.prems(2) that by simp
  show ?case
    using Suc.prems(1) by (subst scroll_loop.simps) (simp add: Let_def IH)
qed

lemma collectUrls_returns: "collectUrls pg mx \<noteq> None \<longleftrightarrow> scroll_page pg mx \<noteq> None"
  by (simp add: collectUrls_def Let_def split: option.splits)

lemma extent_antimono:
  assumes "\<forall>i. sh_before (env (Suc i)) = sh_after (env i)"
    and "\<forall>i. sh_after (env i) \<le> sh_before (env i)"
  shows "sh_before (env (i + j)) \<le> sh_before (env i)"
proof (induction j)
  case 0
  show ?case by simp
next
  case (Suc j)
  have "sh_before (env (i + Suc j)) = sh_after (env (i + j))"
    using assms(1) by simp
  also have "\<dots> \<le> sh_before (env (i + j))"
    using assms(2) by blast
  finally show ?case using Suc by simp
qed

lemma stall_window:
  assumes cons: "\<forall>i. sh_before (env (Suc i)) = sh_after (env i)"
    and dec: "\<forall>i. sh_after (env i) \<le> sh_before (env i)"
  shows "sh_before (env i) \<le> h \<Longrightarrow>
    \<exists>k\<le>9 * h. \<forall>j<9. sh_after (env (i + k + j)) = sh_before (env (i + k + j))"
proof (induction h arbitrary: i)
  case 0
  have "sh_after (env (i + j)) = sh_before (env (i + j))" for j
  proof -
    have "sh_before (env (i + j)) \<le> sh_before (env i)"
      using cons dec by (rule extent_antimono)
    with 0 have "sh_before (env (i + j)) = 0" by simp
    moreover have "sh_after (env (i + j)) \<le> sh_before (env (i + j))"
      using dec by blast
    ultimately show ?thesis by simp
  qed
  then have "\<forall>j<9. sh_after (env (i + 0 + j)) = sh_before (env (i + 0 + j))"
    by simp
  then show ?case by blast
next
  case (Suc h)
  show ?case
  proof (cases "\<forall>j<9. sh_after (env (i + j)) = sh_before (env (i + j))")
    case True
    then have "\<forall>j<9. sh_after (env (i + 0 + j)) = sh_before (env (i + 0 + j))"
      by simp
    then show ?thesis by blast
  next
    case False
    then obtain j where j: "j < 9" "sh_after (env (i + j)) \<noteq> sh_before (env (i + j))"
      by blast
    have "sh_after (env (i + j)) \<le> sh_before (env (i + j))"
      using dec by blast
    with j(2) have "sh_after (env (i + j)) < sh_before (env (i + j))" by simp
    also have "\<dots> \<le> sh_before (env i)"
      using cons dec by (rule extent_antimono)
    finally have "sh_before (env (Suc (i + j))) \<le> h"
      using cons Suc.prems by simp
    from Suc.IH [OF this] obtain k
      where k: "k \<le> 9 * h"
        "\<forall>j'<9. sh_after (env (Suc (i + j) + k + j')) = sh_before (env (Suc (i + j) + k + j'))"
      by blast
    have "sh_after (env (i + (Suc j + k) + j')) = sh_before (env (i + (Suc j + k) + j'))"
      if "j' < 9" for j'
    proof -
      have "i + (Suc j + k) + j' = Suc (i + j) + k + j'" by simp
      with k(2) that show ?thesis by (simp only:)
    qed
    then have "\<forall>j'<9. sh_after (env (i + (Suc j + k) + j'))
        = sh_before (env (i + (Suc j + k) + j'))"
      by blast
    moreover have "Suc j + k \<le> 9 * Suc h"
      using j(1) k(1) by simp
    ultimately show ?thesis by blast
  qed
qed

text \<open>
  Claim C2. With a results container present, the scroll loop stops after at most 9
  iterations when the extent read by the end detection equals, in every iteration, the
  extent read before the scroll (the list never grows; this is the test
  \<open>container.scrollHeight === sh\<close> of the source), and it stops at the latest in the
  iteration in which the count of rendered place links reaches \<open>maxCount\<close>. In both
  cases \<open>collectUrls\<close> returns. Should the extent also shrink, each change starts the
  count of retries again, and when every iteration starts from the extent the previous
  one ended with, the loop still stops, after at most 9 iterations for each value the
  extent can take from its first value down.
\<close>

theorem scroll_loop_terminates:
  assumes "feed pg = Some env"
  shows "((\<forall>i. sh_after (env i) = sh_before (env i)) \<longrightarrow>
            (\<exists>n acts. scroll_page pg maxCount = Some (n, acts) \<and> n \<le> 9) \<and>
            collectUrls pg maxCount \<noteq> None) \<and>
         ((\<forall>i. sh_after (env i) \<le> sh_before (env i)) \<and>
          (\<forall>i. sh_before (env (Suc i)) = sh_after (env i)) \<longrightarrow>
            (\<exists>n acts. scroll_page pg maxCount = Some (n, acts) \<and>
               n \<le> 9 * (sh_before (env 0) + 1)) \<and>
            collectUrls pg maxCount \<noteq> None) \<and>
         (\<forall>k. maxCount \<le> int (place_link_count (dom (env k))) \<longrightarrow>
            (\<exists>n acts. scroll_page pg maxCount = Some (n, acts) \<and> n \<le> k + 1) \<and>
            collectUrls pg maxCount \<noteq> None)"
proof (intro conjI impI allI)
  assume "\<forall>i. sh_after (env i) = sh_before (env i)"
  then have "stops_by (scroll_loop env maxCount 0 0 []) (0 + (9 - 0))"
    by (intro scroll_loop_stalled) simp_all
  then show a: "\<exists>n acts. scroll_page pg maxCount = Some (n, acts) \<and> n \<le> 9"
    using assms by (simp add: scroll_page_def stops_by_def)
  then show "collectUrls pg maxCount \<noteq> None"
    unfolding collectUrls_returns by auto
next
  assume h: "(\<forall>i. sh_after (env i) \<le> sh_before (env i)) \<and>
          (\<forall>i. sh_before (env (Suc i)) = sh_after (env i))"
  then obtain k where k: "k \<le> 9 * sh_before (env 0)"
    "\<forall>j<9. sh_after (env (0 + k + j)) = sh_before (env (0 + k + j))"
    using stall_window [of env 0 "sh_before (env 0)"] by blast
  from k(2) have "stops_by (scroll_loop env maxCount 0 0 []) (0 + k + 9)"
    by (intro scroll_loop_stall_later) simp_all
  moreover from k(1) have "0 + k + 9 \<le> 9 * (sh_before (env 0) + 1)"
    by simp
  ultimately have "stops_by (scroll_loop env maxCount 0 0 []) (9 * (sh_before (env 0) + 1))"
    by (rule stops_by_mono)
  then show a: "\<exists>n acts. scroll_page pg maxCount = Some (n, acts) \<and>
      n \<le> 9 * (sh_before (env 0) + 1)"
    using assms by (simp add: scroll_page_def stops_by_def)
  then show "collectUrls pg maxCount \<noteq> None"
    unfolding collectUrls_returns by auto
next
  fix k assume "maxCount \<le> int (place_link_count (dom (env k)))"
  then have "stops_by (scroll_loop env maxCount 0 0 []) (0 + k + 1)"
    by (intro scroll_loop_target) simp
  then show a: "\<exists>n acts. scroll_page pg maxCount = Some (n, acts) \<and> n \<le> k + 1"
    using assms by (simp add: scroll_page_def stops_by_def)
  then show "collectUrls pg maxCount \<noteq> None"
    unfolding collectUrls_returns by auto
qed

lemma shrinking_page_scroll:
  "scroll_page shrinking_page 20 =
     Some (11, [800, 800, 800, 800, - 300, 800, 800, 800, 800, 800, 800, 800])"
  by (simp add: scroll_page_def shrinking_page_def shrinking_feed_def scroll_loop.simps
        results_dom_count distance_def)

theorem scroll_loop_terminates_witness:
  "(\<exists>n acts. scroll_page static_page 20 = Some (n, acts) \<and> n \<le> 9) \<and>
   (\<exists>n acts. scroll_page shrinking_page 20 = Some (n, acts) \<and> n \<le> 27) \<and>
   (\<exists>n acts. scroll_page static_page 3 = Some (n, acts) \<and> n \<le> 1) \<and>
   collectUrls static_page 20 \<noteq> None"
proof -
  have f: "feed static_page = Some static_feed"
    by (simp add: static_page_def)
  have still: "\<forall>i. sh_after (static_feed i) = sh_before (static_feed i)"
    by (simp add: static_feed_def)
  have enough: "3 \<le> int (place_link_count (dom (static_feed 0)))"
    by (simp add: static_feed_def results_dom_count)
  have g: "feed shrinking_page = Some shrinking_feed"
    by (simp add: shrinking_page_def)
  have shrinks: "\<forall>i. sh_after (shrinking_feed i) \<le> sh_before (shrinking_feed i)"
    "\<forall>i. sh_before (shrinking_feed (Suc i)) = sh_after (shrinking_feed i)"
    by (auto simp: shrinking_feed_def)
  have start: "9 * (sh_before (shrinking_feed 0) + 1) = 27"
    by (simp add: shrinking_feed_def)
  from scroll_loop_terminates [OF g, of 20] shrinks start
  have "\<exists>n acts. scroll_page shrinking_page 20 = Some (n, acts) \<and> n \<le> 27"
    by simp
  with scroll_loop_terminates [OF f, of 20] scroll_loop_terminates [OF f, of 3] still enough
  show ?thesis by fastforce
qed

lemma growing_feed_never_stops:
  assumes "scroll_loop env mx retries i acts = Some y"
  shows "env = growing_feed \<longrightarrow> mx = 1 \<longrightarrow> False"
proof (rule scroll_loop.raw_induct
    [where P = "\<lambda>env mx retries i acts y. env = growing_feed \<longrightarrow> mx = 1 \<longrightarrow> False",
      OF _ assms], goal_cases)
  case (1 loop env mx retries i acts y)
  have obs: "sh_before (growing_feed i) = i" "sh_after (growing_feed i) = Suc i"
    "place_link_count (dom (growing_feed i)) = 0"
    by (simp_all add: growing_feed_def place_link_count_def querySelectorAll_def)
  show ?case
  proof (intro impI)
    assume e: "env = growing_feed" and m: "mx = 1"
    from 1(2) have "loop env mx 0 (Suc i) (acts @ [distance]) = Some y"
      unfolding e m by (simp add: obs Let_def)
    with 1(1) e m show False by blast
  qed
qed

text \<open>
  Claim C4 as stated fails: the loop counts consecutive iterations without a change of
  the extent and starts again from 0 at every change, so a page whose extent changes in
  every iteration, with fewer place links than \<open>maxCount\<close>, keeps it running for ever.
\<close>

theorem scroll_loop_unbounded_counterexample:
  "scroll_page growing_page 1 = None \<and> collectUrls growing_page 1 = None"
proof -
  have "scroll_loop growing_feed 1 0 0 [] = None"
  proof (cases "scroll_loop growing_feed 1 0 0 []")
    case None
    then show ?thesis .
  next
    case (Some y)
    from growing_feed_never_stops [OF this] show ?thesis by simp
  qed
  then have "scroll_page growing_page 1 = None"
    by (simp add: scroll_page_def growing_page_def)
  then show ?thesis by (simp add: collectUrls_def)
qed

text \<open>
  Claim C4, amended. The cap is on consecutive iterations in which the extent does not
  change: for every behaviour of a page with a results container, if from iteration
  \<open>k\<close> on nine iterations in a row read the same extent before the scroll and at the end
  detection, the loop has stopped after at most \<open>k + 9\<close> iterations.
\<close>

theorem scroll_loop_stall_cap:
  assumes "feed pg = Some env"
    and "\<forall>j<9. sh_after (env (k + j)) = sh_before (env (k + j))"
  shows "\<exists>n acts. scroll_page pg maxCount = Some (n, acts) \<and> n \<le> k + 9"
proof -
  from assms(2) have "stops_by (scroll_loop env maxCount 0 0 []) (0 + k + 9)"
    by (intro scroll_loop_stall_later) simp_all
  then show ?thesis
    using assms(1) by (simp add: scroll_page_def stops_by_def)
qed

theorem scroll_loop_stall_cap_witness:
  "\<exists>n acts. scroll_page static_page 20 = Some (n, acts) \<and> n \<le> 0 + 9"
proof -
  have f: "feed static_page = Some static_feed"
    by (simp add: static_page_def)
  have still: "\<forall>j<9. sh_after (static_feed (0 + j)) = sh_before (static_feed (0 + j))"
    by (simp add: static_feed_def)
  from scroll_loop_stall_cap [OF f still] show ?thesis .
qed

text \<open>
  Claim C10. With no results container in the document the function evaluated in the page
  returns at once, having run no iteration and issued no scroll, and \<open>collectUrls\<close>
  returns the targets of the place links of the whole document, each once in the order of
  first occurrence, cut by \<open>slice(0, maxItems)\<close>: to the first \<open>maxItems\<close> of them for
  \<open>maxItems\<close> of 0 or more.
\<close>

theorem collectUrls_without_container:
  assumes "feed pg = None"
  shows "scroll_page pg maxItems = Some (0, []) \<and>
         (\<exists>urls. collectUrls pg maxItems = Some (slice0 urls maxItems) \<and>
            distinct urls \<and>
            set urls = href ` {e \<in> set (final_dom pg). sel_place_link e} \<and>
            sorted_wrt (\<lambda>a b. first_index (place_hrefs (final_dom pg)) a
                             < first_index (place_hrefs (final_dom pg)) b) urls \<and>
            (0 \<le> maxItems \<longrightarrow> slice0 urls maxItems = take (nat maxItems) urls))"
proof
  show sp: "scroll_page pg maxItems = Some (0, [])"
    using assms by (simp add: scroll_page_def)
  let ?urls = "fold set_add (place_hrefs (final_dom pg)) []"
  have "collectUrls pg maxItems = Some (slice0 ?urls maxItems)"
    by (simp add: collectUrls_def sp)
  moreover have "distinct ?urls"
    by (simp add: distinct_fold_set_add)
  moreover have "set ?urls = href ` {e \<in> set (final_dom pg). sel_place_link e}"
    by (simp add: set_fold_set_add place_hrefs_def querySelectorAll_def)
  moreover have "sorted_wrt (\<lambda>a b. first_index (place_hrefs (final_dom pg)) a
                             < first_index (place_hrefs (final_dom pg)) b) ?urls"
    by (rule first_seen_order)
  moreover have "0 \<le> maxItems \<longrightarrow> slice0 ?urls maxItems = take (nat maxItems) ?urls"
    by (simp add: slice0_nonneg)
  ultimately show "\<exists>urls. collectUrls pg maxItems = Some (slice0 urls maxItems) \<and>
            distinct urls \<and>
            set urls = href ` {e \<in> set (final_dom pg). sel_place_link e} \<and>
            sorted_wrt (\<lambda>a b. first_index (place_hrefs (final_dom pg)) a
                             < first_index (place_hrefs (final_dom pg)) b) urls \<and>
            (0 \<le> maxItems \<longrightarrow> slice0 urls maxItems = take (nat maxItems) urls)"
    by blast
qed

theorem collectUrls_without_container_witness:
  "scroll_page no_feed_page 2 = Some (0, []) \<and>
   collectUrls no_feed_page 2 =
     Some [js ''https://g.co/maps/place/A'', js ''https://g.co/maps/place/B'']"
proof -
  have f: "feed no_feed_page = None"
    by (simp add: no_feed_page_def)
  have r: "collectUrls no_feed_page 2 =
     Some [js ''https://g.co/maps/place/A'', js ''https://g.co/maps/place/B'']"
    by (simp add: collectUrls_def scroll_page_def no_feed_page_def results_dom_hrefs
          set_add_def slice0_def js_def)
  from collectUrls_without_container [OF f, of 2] r show ?thesis by simp
qed

section \<open>Properties of the orchestrator\<close>

lemma visit_append: "visit st u acc = acc @ visit st u []"
  by (simp add: visit_def collect_data_def split: option.splits sum.splits)

lemma fold_visit: "fold (visit st) us acc = acc @ concat (map (\<lambda>u. visit st u []) us)"
proof (induction us arbitrary: acc)
  case Nil
  show ?case by simp
next
  case (Cons u us)
  have "fold (visit st) (u # us) acc = fold (visit st) us (visit st u acc)"
    by simp
  also have "\<dots> = visit st u acc @ concat (map (\<lambda>u. visit st u []) us)"
    by (rule Cons.IH)
  also have "visit st u acc = acc @ visit st u []"
    by (rule visit_append)
  finally show ?case by simp
qed

lemma process_batches_all:
  "process_batches st us i acc = acc @ concat (map (\<lambda>u. visit st u []) (drop i us))"
proof (induction st us i acc rule: process_batches.induct)
  case (1 st us i acc)
  show ?case
  proof (cases "i < length us")
    case True
    let ?batch = "take batchSize (drop i us)"
    have split: "drop i us = ?batch @ drop (i + batchSize) us"
      by (metis append_take_drop_id drop_drop add.commute)
    have "process_batches st us i acc =
        process_batches st us (i + batchSize) (fold (visit st) ?batch acc)"
      using True by (subst process_batches.simps) (simp add: Let_def)
    also have "\<dots> = fold (visit st) ?batch acc
        @ concat (map (\<lambda>u. visit st u []) (drop (i + batchSize) us))"
      using True by (intro 1) simp_all
    also have "fold (visit st) ?batch acc = acc @ concat (map (\<lambda>u. visit st u []) ?batch)"
      by (rule fold_visit)
    finally have "process_batches st us i acc =
        acc @ concat (map (\<lambda>u. visit st u []) (?batch @ drop (i + batchSize) us))"
      by simp
    then show ?thesis by (simp only: split [symmetric])
  next
    case False
    then show ?thesis by (subst process_batches.simps) simp
  qed
qed

lemma includes_str_nonempty: "includes_str s sub \<Longrightarrow> sub \<noteq> [] \<Longrightarrow> s \<noteq> []"
  by (cases s) auto

text \<open>
  Claim C9. The orchestrator appends the result of an extraction exactly when it is not
  \<open>null\<close>, its name is not empty and its name is not the string \<open>'Google Maps'\<close>.
  The comparison is equality of strings, so a name that contains \<open>'Google Maps'\<close> or
  differs from it in the case of its letters is appended. Over a whole run, in batches,
  the collected records are those of the visited pages, in the order of the addresses,
  leaving out failed navigations, rejected pages and pages named \<open>'Google Maps'\<close>.
\<close>

theorem orchestrator_append_guard:
  "collect_data None acc = acc \<and>
   collect_data (Some d) acc =
     (if name d \<noteq> [] \<and> name d \<noteq> js ''Google Maps'' then acc @ [d] else acc) \<and>
   (name d \<noteq> js ''Google Maps'' \<and>
    (includes_str (name d) (js ''Google Maps'') \<or>
     map ascii_upper (name d) = map ascii_upper (js ''Google Maps'')) \<longrightarrow>
      collect_data (Some d) acc = acc @ [d]) \<and>
   run_visits st urls = concat (map (\<lambda>u. visit st u []) urls) \<and>
   visit st u [] =
     (case st u of
        None \<Rightarrow> []
      | Some doc \<Rightarrow>
          (case extractDetails doc u of
             Inr (Some r) \<Rightarrow> if name r = js ''Google Maps'' then [] else [r]
           | _ \<Rightarrow> []))"
proof (intro conjI impI)
  show "collect_data None acc = acc"
    by (simp add: collect_data_def)
  show "collect_data (Some d) acc =
     (if name d \<noteq> [] \<and> name d \<noteq> js ''Google Maps'' then acc @ [d] else acc)"
    by (simp add: collect_data_def)
  show "collect_data (Some d) acc = acc @ [d]"
    if h: "name d \<noteq> js ''Google Maps'' \<and>
      (includes_str (name d) (js ''Google Maps'') \<or>
       map ascii_upper (name d) = map ascii_upper (js ''Google Maps''))"
  proof -
    have gm: "js ''Google Maps'' \<noteq> []" by (simp add: js_def)
    from h have "name d \<noteq> []"
    proof (elim conjE disjE)
      assume "includes_str (name d) (js ''Google Maps'')"
      then show ?thesis using gm by (rule includes_str_nonempty)
    next
      assume "map ascii_upper (name d) = map ascii_upper (js ''Google Maps'')"
      then have "length (name d) = length (js ''Google Maps'')"
        by (rule map_eq_imp_length_eq)
      with gm show ?thesis by auto
    qed
    with h show ?thesis by (simp add: collect_data_def)
  qed
  show "run_visits st urls = concat (map (\<lambda>u. visit st u []) urls)"
    unfolding run_visits_def process_batches_all by simp
  show "visit st u [] =
     (case st u of
        None \<Rightarrow> []
      | Some doc \<Rightarrow>
          (case extractDetails doc u of
             Inr (Some r) \<Rightarrow> if name r = js ''Google Maps'' then [] else [r]
           | _ \<Rightarrow> []))"
    by (simp add: visit_def collect_data_def extractDetails_cases split: option.splits)
qed

lemma titled_site_visits:
  "visit titled_site (js ''a'') [] = [named_record (js ''Acme Plumbing'')\<lparr>url := js ''a''\<rparr>]"
  "visit titled_site (js ''b'') [] = []"
  "visit titled_site (js ''c'') [] = [named_record (js ''google maps'')\<lparr>url := js ''c''\<rparr>]"
  "visit titled_site (js ''d'') [] = []"
  "visit titled_site (js ''e'') [] = []"
  by (simp_all add: visit_def collect_data_def titled_site_def named_record_def
        extractDetails_cases heading_text_def rating_of_def reviews_of_def scan_elements_def
        scan_init_def website_fallback_def dom_eval text_eval)

theorem orchestrator_append_guard_witness:
  "collect_data (Some (named_record (js ''google maps''))) [] =
     [named_record (js ''google maps'')] \<and>
   collect_data (Some (named_record (js ''Google Maps Office''))) [] =
     [named_record (js ''Google Maps Office'')] \<and>
   collect_data (Some (named_record (js ''Google Maps''))) [] = [] \<and>
   run_visits titled_site [js ''a'', js ''b'', js ''c'', js ''d'', js ''e''] =
     [named_record (js ''Acme Plumbing'')\<lparr>url := js ''a''\<rparr>,
      named_record (js ''google maps'')\<lparr>url := js ''c''\<rparr>]"
proof -
  note at_lower = orchestrator_append_guard
    [of "[]" "named_record (js ''google maps'')" titled_site
      "[js ''a'', js ''b'', js ''c'', js ''d'', js ''e'']" "js ''a''"]
  note at_longer = orchestrator_append_guard
    [of "[]" "named_record (js ''Google Maps Office'')" titled_site "[]" "js ''a''"]
  note at_exact = orchestrator_append_guard
    [of "[]" "named_record (js ''Google Maps'')" titled_site "[]" "js ''a''"]
  have lower: "name (named_record (js ''google maps'')) \<noteq> js ''Google Maps''"
    "map ascii_upper (name (named_record (js ''google maps''))) =
       map ascii_upper (js ''Google Maps'')"
    by (simp_all add: named_record_def js_def ascii_upper_def)
  have longer: "name (named_record (js ''Google Maps Office'')) \<noteq> js ''Google Maps''"
    "includes_str (name (named_record (js ''Google Maps Office''))) (js ''Google Maps'')"
    by (simp_all add: named_record_def js_def)
  have exact: "name (named_record (js ''Google Maps'')) = js ''Google Maps''"
    by (simp add: named_record_def)
  have a: "collect_data (Some (named_record (js ''google maps''))) [] =
     [] @ [named_record (js ''google maps'')]"
    using lower
    by (intro at_lower [THEN conjunct2, THEN conjunct2, THEN conjunct1, THEN mp]) blast
  have b: "collect_data (Some (named_record (js ''Google Maps Office''))) [] =
     [] @ [named_record (js ''Google Maps Office'')]"
    using longer
    by (intro at_longer [THEN conjunct2, THEN conjunct2, THEN conjunct1, THEN mp]) blast
  have c: "collect_data (Some (named_record (js ''Google Maps''))) [] = []"
    using at_exact [THEN conjunct2, THEN conjunct1] exact by simp
  have "run_visits titled_site [js ''a'', js ''b'', js ''c'', js ''d'', js ''e''] =
      concat (map (\<lambda>u. visit titled_site u [])
        [js ''a'', js ''b'', js ''c'', js ''d'', js ''e''])"
    by (rule at_lower [THEN conjunct2, THEN conjunct2, THEN conjunct2, THEN conjunct1])
  then have d: "run_visits titled_site [js ''a'', js ''b'', js ''c'', js ''d'', js ''e''] =
     [named_record (js ''Acme Plumbing'')\<lparr>url := js ''a''\<rparr>,
      named_record (js ''google maps'')\<lparr>url := js ''c''\<rparr>]"
    by (simp add: titled_site_visits)
  from a b c d show ?thesis by simp
qed

end
